theory Spec2Isabelle
  imports Main
begin

section \<open>Rush configuration: project entries and temp names\<close>

text \<open>
  The development embeds \<^verbatim>\<open>RushConfig\<close> (the class that loads \<^verbatim>\<open>rush.json\<close>):
  the temp-name generator \<^verbatim>\<open>_generateTempNamesForProjects\<close>, the constructor with its
  project loops, \<^verbatim>\<open>loadFromConfigFile\<close> and \<^verbatim>\<open>loadFromDefaultLocation\<close>.
  Exceptions are values of type \<open>error\<close>; a function that may throw returns
  \<open>error + 'a\<close> with \<open>Inl\<close> for the thrown error.
\<close>

subsection \<open>Data\<close>

text \<open>
  Modelled from the spec: the interface \<^verbatim>\<open>IRushConfigProjectJson\<close> is declared in
  \<^verbatim>\<open>RushConfigProject.ts\<close>, which is not among the sources. The fields are the ones the
  manifest input lists: \<^verbatim>\<open>packageName\<close>, \<^verbatim>\<open>projectFolder\<close>, the optional
  \<^verbatim>\<open>reviewCategory\<close>, \<^verbatim>\<open>cyclicDependencyProjects\<close> (a list of package names, empty when
  absent) and the package's own dependency list. The last one is what the constructor
  reads as \<^verbatim>\<open>Object.keys(project.packageJson.dependencies)\<close>: \<open>None\<close> when the package
  has no \<^verbatim>\<open>dependencies\<close> object, otherwise the keys in enumeration order.
\<close>

record IRushConfigProjectJson =
  packageName :: string
  projectFolder :: string
  reviewCategory :: "string option"
  cyclicDependencyProjects :: "string list"
  dependencies :: "string list option"

text \<open>
  Modelled from the spec: the class \<^verbatim>\<open>RushConfigProject\<close> is not among the sources
  either. A project carries the fields of its manifest entry, the temp name handed to its
  constructor and the derived sequence \<^verbatim>\<open>downstreamDependencyProjects\<close>, which is empty
  when the project is created and is filled by the constructor of \<^verbatim>\<open>RushConfig\<close>.
\<close>

record RushConfigProject = IRushConfigProjectJson +
  tempProjectName :: string
  downstreamDependencyProjects :: "string list"

definition new_RushConfigProject :: "IRushConfigProjectJson \<Rightarrow> string \<Rightarrow> RushConfigProject" where
  "new_RushConfigProject projectJson tempName =
     \<lparr> packageName = packageName projectJson,
       projectFolder = projectFolder projectJson,
       reviewCategory = reviewCategory projectJson,
       cyclicDependencyProjects = cyclicDependencyProjects projectJson,
       dependencies = dependencies projectJson,
       tempProjectName = tempName,
       downstreamDependencyProjects = [] \<rparr>"

subsection \<open>Strings of the JavaScript runtime\<close>

text \<open>
  \<^verbatim>\<open>'-' + counter\<close> appends the decimal representation of the number. The counter is
  a natural number here (a double is exact up to \<open>2^53\<close>, far beyond any count of
  projects).
\<close>

definition digit_char :: "nat \<Rightarrow> char" where
  "digit_char d = char_of (48 + d)"

function string_of_nat :: "nat \<Rightarrow> string" where
  "string_of_nat n =
     (if n < 10 then [digit_char n]
      else string_of_nat (n div 10) @ [digit_char (n mod 10)])"
  by pat_completeness auto
termination
  by (relation "measure (\<lambda>n. n)") auto

declare string_of_nat.simps [simp del]

text \<open>
  \<^verbatim>\<open>String.prototype.localeCompare\<close> is a three-way comparison: negative, zero or
  positive. It is modelled as the lexicographic comparison of the character codes
  (case-sensitive). The only property the development uses is that a string compares
  equal to itself, which holds in every locale.
\<close>

fun localeCompare :: "string \<Rightarrow> string \<Rightarrow> int" where
  "localeCompare [] [] = 0"
| "localeCompare [] (d # t) = -1"
| "localeCompare (c # s) [] = 1"
| "localeCompare (c # s) (d # t) =
     (if of_char c < (of_char d :: nat) then -1
      else if of_char d < (of_char c :: nat) then 1
      else localeCompare s t)"

text \<open>
  \<^verbatim>\<open>Array.prototype.sort(compareFn)\<close>: a stable sort (ECMAScript 2019 and later); an
  element is placed before the first element that does not precede it. The array is
  sorted in place and returned, so the caller's array is the sorted one afterwards.
\<close>

fun insert_sorted :: "('a \<Rightarrow> 'a \<Rightarrow> int) \<Rightarrow> 'a \<Rightarrow> 'a list \<Rightarrow> 'a list" where
  "insert_sorted compareFn x [] = [x]"
| "insert_sorted compareFn x (y # ys) =
     (if compareFn x y \<le> 0 then x # y # ys else y # insert_sorted compareFn x ys)"

definition Array_sort :: "('a \<Rightarrow> 'a \<Rightarrow> int) \<Rightarrow> 'a list \<Rightarrow> 'a list" where
  "Array_sort compareFn xs = foldr (insert_sorted compareFn) xs []"

subsection \<open>The temp-name generator\<close>

text \<open>
  Modelled from the spec: \<^verbatim>\<open>Utilities.parseScopedPackgeName\<close> is not among the sources.
  Its \<^verbatim>\<open>name\<close> component is the package name with the scope prefix stripped: for
  \<^verbatim>\<open>@ms/MyProject\<close> the part after the first slash, for an unscoped name the name itself.
\<close>

definition parseScopedPackgeName_name :: "string \<Rightarrow> string" where
  "parseScopedPackgeName_name scopedName =
     (if take 1 scopedName = ''@'' \<and> CHR ''/'' \<in> set scopedName
      then tl (dropWhile (\<lambda>c. c \<noteq> CHR ''/'') scopedName)
      else scopedName)"

text \<open>
  The \<^verbatim>\<open>while\<close> loop of the generator: as long as the candidate is in the set of used
  names, the counter is incremented and the candidate rebuilt from it. The state of the
  loop is the counter and the candidate; the set of used names is a list of strings in
  insertion order. The loop terminates because distinct counters give distinct
  candidates, of which the finite set of used names holds finitely many.
\<close>

function unique_name_loop :: "string list \<Rightarrow> string \<Rightarrow> nat \<Rightarrow> string \<Rightarrow> string" where
  "unique_name_loop usedTempNames unscopedName counter tempName =
     (if tempName \<in> set usedTempNames
      then unique_name_loop usedTempNames unscopedName (counter + 1)
             (''rush-'' @ unscopedName @ ''-'' @ string_of_nat (counter + 1))
      else tempName)"
  by pat_completeness auto

lemma digit_char_inj: "a < 10 \<Longrightarrow> b < 10 \<Longrightarrow> digit_char a = digit_char b \<Longrightarrow> a = b"
  by (simp add: digit_char_def char_of_eq_iff take_bit_eq_mod)

lemma string_of_nat_nonempty: "string_of_nat n \<noteq> []"
  by (subst string_of_nat.simps) simp

lemma string_of_nat_inj: "string_of_nat n = string_of_nat m \<Longrightarrow> n = m"
proof (induction n arbitrary: m rule: string_of_nat.induct)
  case (1 n)
  show ?case
  proof (cases "n < 10")
    case small_n: True
    show ?thesis
    proof (cases "m < 10")
      case True
      with small_n "1.prems" show ?thesis
        by (subst (asm) string_of_nat.simps, subst (asm) (2) string_of_nat.simps)
           (simp add: digit_char_inj)
    next
      case False
      with small_n "1.prems" show ?thesis
        using string_of_nat_nonempty [of "m div 10"]
        by (subst (asm) string_of_nat.simps, subst (asm) (2) string_of_nat.simps) simp
    qed
  next
    case big_n: False
    show ?thesis
    proof (cases "m < 10")
      case True
      with big_n "1.prems" show ?thesis
        using string_of_nat_nonempty [of "n div 10"]
        by (subst (asm) string_of_nat.simps, subst (asm) (2) string_of_nat.simps) simp
    next
      case False
      from big_n False "1.prems"
      have eq: "string_of_nat (n div 10) = string_of_nat (m div 10)"
        and d: "digit_char (n mod 10) = digit_char (m mod 10)"
        by (subst (asm) string_of_nat.simps, subst (asm) (2) string_of_nat.simps, simp)+
      from "1.IH" [OF big_n eq] have "n div 10 = m div 10" .
      moreover from d have "n mod 10 = m mod 10" by (simp add: digit_char_inj)
      ultimately show ?thesis by (metis div_mult_mod_eq)
    qed
  qed
qed

lemma finite_suffixed_names:
  "finite {k. ''rush-'' @ u @ ''-'' @ string_of_nat k \<in> set used}"
proof -
  have "inj (\<lambda>k. ''rush-'' @ u @ ''-'' @ string_of_nat k)"
    by (auto simp: inj_def dest: string_of_nat_inj)
  then have "finite ((\<lambda>k. ''rush-'' @ u @ ''-'' @ string_of_nat k) -` set used)"
    by (intro finite_vimageI) auto
  then show ?thesis by (simp add: vimage_def)
qed

termination unique_name_loop
proof (relation "measure (\<lambda>(used, u, c, t).
     2 * card {k. c < k \<and> ''rush-'' @ u @ ''-'' @ string_of_nat k \<in> set used}
     + (if t \<in> set used then 1 else 0))")
  show "wf (measure (\<lambda>(used, u, c, t).
     2 * card {k. c < k \<and> ''rush-'' @ u @ ''-'' @ string_of_nat k \<in> set used}
     + (if t \<in> set used then 1 else 0)))"
    by simp
next
  fix usedTempNames :: "string list" and unscopedName :: string
    and counter :: nat and tempName :: string
  assume used: "tempName \<in> set usedTempNames"
  let ?S = "\<lambda>c. {k. c < k \<and>
     ''rush-'' @ unscopedName @ ''-'' @ string_of_nat k \<in> set usedTempNames}"
  have fin: "finite (?S counter)"
    using finite_suffixed_names [of unscopedName usedTempNames]
    by (rule rev_finite_subset) auto
  have sub: "?S (counter + 1) \<subseteq> ?S counter" by auto
  have le: "card (?S (counter + 1)) \<le> card (?S counter)"
    using fin sub by (rule card_mono)
  have strict: "card (?S (counter + 1)) < card (?S counter)"
    if "''rush-'' @ unscopedName @ ''-'' @ string_of_nat (counter + 1) \<in> set usedTempNames"
  proof -
    have "counter + 1 \<in> ?S counter" using that by simp
    moreover have "counter + 1 \<notin> ?S (counter + 1)" by simp
    ultimately have "?S (counter + 1) \<subset> ?S counter" using sub by blast
    with fin show ?thesis by (rule psubset_card_mono)
  qed
  show "((usedTempNames, unscopedName, counter + 1,
          ''rush-'' @ unscopedName @ ''-'' @ string_of_nat (counter + 1)),
         (usedTempNames, unscopedName, counter, tempName))
        \<in> measure (\<lambda>(used, u, c, t).
     2 * card {k. c < k \<and> ''rush-'' @ u @ ''-'' @ string_of_nat k \<in> set used}
     + (if t \<in> set used then 1 else 0))"
  proof (cases "''rush-'' @ unscopedName @ ''-'' @ string_of_nat (counter + 1)
                  \<in> set usedTempNames")
    case True
    from strict [OF True] True used show ?thesis by simp
  next
    case False
    with le used show ?thesis by simp
  qed
qed

declare unique_name_loop.simps [simp del]

text \<open>
  \<^verbatim>\<open>_generateTempNamesForProjects\<close>. The array is sorted with the comparator as it is
  written, \<^verbatim>\<open>a.packageName.localeCompare(a.packageName)\<close>, then walked in order. The
  result map is keyed by the entry objects; it is the list of pairs (entry, temp name) in
  the order of the sorted array, which is also the order of the caller's array after the
  call, since the sort is in place.
\<close>

fun assign_temp_names ::
  "string list \<Rightarrow> IRushConfigProjectJson list \<Rightarrow> (IRushConfigProjectJson \<times> string) list" where
  "assign_temp_names usedTempNames [] = []"
| "assign_temp_names usedTempNames (projectJson # rest) =
     (let unscopedName = parseScopedPackgeName_name (packageName projectJson);
          tempName = unique_name_loop usedTempNames unscopedName 0 (''rush-'' @ unscopedName)
      in (projectJson, tempName) # assign_temp_names (usedTempNames @ [tempName]) rest)"

definition generateTempNamesForProjects ::
  "IRushConfigProjectJson list \<Rightarrow> (IRushConfigProjectJson \<times> string) list" where
  "generateTempNamesForProjects projectJsons =
     (let sortedProjectJsons =
            Array_sort (\<lambda>a b. localeCompare (packageName a) (packageName a)) projectJsons
      in assign_temp_names [] sortedProjectJsons)"

section \<open>The configuration object\<close>

subsection \<open>Errors, the configuration file and the runtime\<close>

text \<open>
  One constructor per \<^verbatim>\<open>throw\<close> of the class, carrying the values that the message
  interpolates. \<open>JsonFileError\<close> stands for whatever \<^verbatim>\<open>JsonFile.loadJsonFile\<close> throws
  for a file that cannot be read or parsed, with its message.
\<close>

datatype error =
    NodeSupportedVersionRangeInvalid string
  | NodeVersionNotSupported string string
  | CommonFolderDoesNotExist string
  | HomeDirectoryUnknown
  | InvalidProjectFolderMinDepth
  | ProjectFolderMaxDepthTooSmall
  | PackageReviewFileNotFound string
  | ProjectSpecifiedMoreThanOnce string
  | CyclicDependencyProjectDoesNotExist string string
  | RushVersionTooOld string string
  | SchemaValidationFailed string
  | UnableToFindRushJson
  | JsonFileError string

text \<open>
  \<^verbatim>\<open>IRushConfigJson\<close>, the parsed \<^verbatim>\<open>rush.json\<close>. Optional fields are options; so is
  \<^verbatim>\<open>rushMinimumVersion\<close>, which the loader reads before the schema has been checked and
  which may therefore be missing. The \<^verbatim>\<open>$schema\<close> field is called \<open>schema\<close>.
\<close>

record IRushConfigJson =
  schema :: "string option"
  commonFolder :: string
  npmVersion :: string
  rushMinimumVersion :: "string option"
  nodeSupportedVersionRange :: "string option"
  projectFolderMinDepth :: "int option"
  projectFolderMaxDepth :: "int option"
  packageReviewFile :: "string option"
  reviewCategories :: "string list option"
  useLocalNpmCache :: "bool option"
  projects :: "IRushConfigProjectJson list"

text \<open>The first entry of \<^verbatim>\<open>error.details\<close> of the schema validator.\<close>

record ErrorDetail =
  detail_path :: string
  detail_code :: string
  detail_message :: string

text \<open>
  What the class takes from outside: the version constant imported from
  \<^verbatim>\<open>../rushVersion\<close>, the process, the libraries \<^verbatim>\<open>semver\<close>, \<^verbatim>\<open>fs\<close>, \<^verbatim>\<open>path\<close> and
  \<^verbatim>\<open>os\<close>, the JSON loader (a file name to the parsed file, or the message of the error
  it throws), the loading of \<^verbatim>\<open>rush-schema.json\<close> (\<open>Some\<close> the message of the error it
  throws, if any) and the schema validator (\<open>None\<close> when the object is valid, else the
  first error detail). \<open>userFolder\<close> is the value of the environment variable
  \<^verbatim>\<open>USERPROFILE\<close> or \<^verbatim>\<open>HOME\<close>. They are parameters of the model.
\<close>

record runtime =
  rushVersion :: string
  process_version :: string
  process_cwd :: string
  userFolder :: string
  semver_valid :: "string \<Rightarrow> bool"
  semver_lt :: "string \<Rightarrow> string \<Rightarrow> bool"
  semver_validRange :: "string \<Rightarrow> bool"
  semver_satisfies :: "string \<Rightarrow> string \<Rightarrow> bool"
  fs_existsSync :: "string \<Rightarrow> bool"
  path_join :: "string \<Rightarrow> string \<Rightarrow> string"
  path_resolve :: "string \<Rightarrow> string"
  path_dirname :: "string \<Rightarrow> string"
  path_basename :: "string \<Rightarrow> string"
  os_EOL :: string
  loadJsonFile :: "string \<Rightarrow> string + IRushConfigJson"
  loadRushSchema :: "string option"
  validate :: "IRushConfigJson \<Rightarrow> ErrorDetail option"

text \<open>
  The object under construction. The private members \<^verbatim>\<open>_rushJsonFolder\<close>, \<^verbatim>\<open>_projects\<close>
  and so on are the fields \<open>rc_rushJsonFolder\<close>, \<open>rc_projects\<close>. The projects are shared
  between the array \<^verbatim>\<open>_projects\<close> and the map \<^verbatim>\<open>_projectsByName\<close>: the array is the
  store, and the map sends a name to the position of its project in the array.
\<close>

record RushConfig =
  rc_rushJsonFolder :: string
  rc_commonFolder :: string
  rc_commonFolderName :: string
  rc_cacheFolder :: "string option"
  rc_tmpFolder :: "string option"
  rc_tempModulesFolder :: string
  rc_homeFolder :: string
  rc_rushLinkJsonFilename :: string
  rc_npmToolVersion :: string
  rc_npmToolFilename :: string
  rc_projectFolderMinDepth :: int
  rc_projectFolderMaxDepth :: int
  rc_packageReviewFile :: "string option"
  rc_reviewCategories :: "string set"
  rc_projects :: "RushConfigProject list"
  rc_projectsByName :: "string \<rightharpoonup> nat"

text \<open>A string is truthy when it is not empty; an absent field is \<^verbatim>\<open>undefined\<close>.\<close>

fun truthy :: "string option \<Rightarrow> bool" where
  "truthy None = False"
| "truthy (Some s) = (s \<noteq> [])"

subsection \<open>The project loops of the constructor\<close>

text \<open>
  The first loop: one project per entry, pushed on \<^verbatim>\<open>_projects\<close>, refused when its name
  is already in \<^verbatim>\<open>_projectsByName\<close>, registered there otherwise.
\<close>

fun add_projects ::
  "(IRushConfigProjectJson \<times> string) list \<Rightarrow> RushConfigProject list \<Rightarrow> (string \<rightharpoonup> nat)
   \<Rightarrow> error + (RushConfigProject list \<times> (string \<rightharpoonup> nat))" where
  "add_projects [] projs byName = Inr (projs, byName)"
| "add_projects ((projectJson, tempName) # rest) projs byName =
     (let project = new_RushConfigProject projectJson tempName;
          projs' = projs @ [project]
      in if byName (packageName project) \<noteq> None
         then Inl (ProjectSpecifiedMoreThanOnce (packageName project))
         else add_projects rest projs' (byName(packageName project \<mapsto> length projs)))"

text \<open>
  The second loop, for each project in turn: every name of its
  \<^verbatim>\<open>cyclicDependencyProjects\<close> must be a registered project; then, for each key of its
  \<^verbatim>\<open>dependencies\<close> that is a registered project, the name of the project is pushed on
  \<^verbatim>\<open>downstreamDependencyProjects\<close> of that project.
\<close>

fun check_cyclicDependencyProjects ::
  "(string \<rightharpoonup> nat) \<Rightarrow> string \<Rightarrow> string list \<Rightarrow> error option" where
  "check_cyclicDependencyProjects byName name [] = None"
| "check_cyclicDependencyProjects byName name (cyclicDependencyProject # rest) =
     (if byName cyclicDependencyProject = None
      then Some (CyclicDependencyProjectDoesNotExist cyclicDependencyProject name)
      else check_cyclicDependencyProjects byName name rest)"

definition push_downstream :: "RushConfigProject list \<Rightarrow> nat \<Rightarrow> string \<Rightarrow> RushConfigProject list" where
  "push_downstream projs i name =
     projs[i := (projs ! i)\<lparr>downstreamDependencyProjects :=
                              downstreamDependencyProjects (projs ! i) @ [name]\<rparr>]"

fun add_downstream ::
  "(string \<rightharpoonup> nat) \<Rightarrow> string \<Rightarrow> string list \<Rightarrow> RushConfigProject list \<Rightarrow> RushConfigProject list" where
  "add_downstream byName name [] projs = projs"
| "add_downstream byName name (dependencyName # rest) projs =
     add_downstream byName name rest
       (case byName dependencyName of
          None \<Rightarrow> projs
        | Some i \<Rightarrow> push_downstream projs i name)"

fun link_projects ::
  "(string \<rightharpoonup> nat) \<Rightarrow> nat list \<Rightarrow> RushConfigProject list \<Rightarrow> error + RushConfigProject list" where
  "link_projects byName [] projs = Inr projs"
| "link_projects byName (i # rest) projs =
     (let project = projs ! i
      in case check_cyclicDependencyProjects byName (packageName project)
                (cyclicDependencyProjects project) of
           Some e \<Rightarrow> Inl e
         | None \<Rightarrow>
             link_projects byName rest
               (case dependencies project of
                  None \<Rightarrow> projs
                | Some dependencyNames \<Rightarrow>
                    add_downstream byName (packageName project) dependencyNames projs))"

text \<open>
  Lines 231 to 266 of the constructor, the construction of the project graph: temp
  names, first loop, second loop. The second loop visits the positions of \<^verbatim>\<open>_projects\<close>
  in order.
\<close>

definition build_projects ::
  "IRushConfigProjectJson list \<Rightarrow> error + (RushConfigProject list \<times> (string \<rightharpoonup> nat))" where
  "build_projects projectJsons =
     (let tempNamesByProject = generateTempNamesForProjects projectJsons
      in case add_projects tempNamesByProject [] Map.empty of
           Inl e \<Rightarrow> Inl e
         | Inr (projs, byName) \<Rightarrow>
             (case link_projects byName [0..<length projs] projs of
                Inl e \<Rightarrow> Inl e
              | Inr projs' \<Rightarrow> Inr (projs', byName)))"

subsection \<open>The constructor\<close>

text \<open>
  Lines 172 to 232: the checks of the node version, the folders and the folder depths.
  The result is the object with no project yet, or the error thrown.
\<close>

definition constructor_settings :: "runtime \<Rightarrow> IRushConfigJson \<Rightarrow> string \<Rightarrow> error + RushConfig" where
  "constructor_settings rt rushConfigJson rushJsonFilename =
     (let range = (case nodeSupportedVersionRange rushConfigJson of None \<Rightarrow> [] | Some r \<Rightarrow> r)
      in
      if range \<noteq> [] \<and> \<not> semver_validRange rt range
      then Inl (NodeSupportedVersionRangeInvalid range)
      else if range \<noteq> [] \<and> \<not> semver_satisfies rt (process_version rt) range
      then Inl (NodeVersionNotSupported (process_version rt) range)
      else
      let rushJsonFolder = path_dirname rt rushJsonFilename;
          commonFolder' = path_resolve rt (path_join rt rushJsonFolder (commonFolder rushConfigJson))
      in
      if \<not> fs_existsSync rt commonFolder'
      then Inl (CommonFolderDoesNotExist (commonFolder rushConfigJson))
      else
      let localCache = (useLocalNpmCache rushConfigJson = Some True);
          homeFolder = path_resolve rt (userFolder rt)
      in
      if \<not> fs_existsSync rt homeFolder
      then Inl HomeDirectoryUnknown
      else
      let minDepth = (case projectFolderMinDepth rushConfigJson of None \<Rightarrow> 1 | Some d \<Rightarrow> d)
      in
      if minDepth < 1
      then Inl InvalidProjectFolderMinDepth
      else
      let maxDepth = (case projectFolderMaxDepth rushConfigJson of None \<Rightarrow> 2 | Some d \<Rightarrow> d)
      in
      if maxDepth < minDepth
      then Inl ProjectFolderMaxDepthTooSmall
      else
      let reviewFile =
            (if truthy (packageReviewFile rushConfigJson)
             then map_option (\<lambda>f. path_resolve rt (path_join rt rushJsonFolder f))
                    (packageReviewFile rushConfigJson)
             else None)
      in
      case (case reviewFile of
              None \<Rightarrow> None
            | Some f \<Rightarrow> if fs_existsSync rt f then None else Some (PackageReviewFileNotFound f)) of
        Some e \<Rightarrow> Inl e
      | None \<Rightarrow>
          Inr \<lparr> rc_rushJsonFolder = rushJsonFolder,
                rc_commonFolder = commonFolder',
                rc_commonFolderName = path_basename rt commonFolder',
                rc_cacheFolder =
                  (if localCache then Some (path_resolve rt (path_join rt commonFolder' ''npm-cache''))
                   else None),
                rc_tmpFolder =
                  (if localCache then Some (path_resolve rt (path_join rt commonFolder' ''npm-tmp''))
                   else None),
                rc_tempModulesFolder = path_join rt commonFolder' ''temp_modules'',
                rc_homeFolder = homeFolder,
                rc_rushLinkJsonFilename = path_join rt commonFolder' ''rush-link.json'',
                rc_npmToolVersion = npmVersion rushConfigJson,
                rc_npmToolFilename =
                  path_join rt (path_join rt (path_join rt (path_join rt commonFolder'
                    ''npm-local'') ''node_modules'') ''.bin'') ''npm'',
                rc_projectFolderMinDepth = minDepth,
                rc_projectFolderMaxDepth = maxDepth,
                rc_packageReviewFile = reviewFile,
                rc_reviewCategories =
                  (case reviewCategories rushConfigJson of None \<Rightarrow> {} | Some cs \<Rightarrow> set cs),
                rc_projects = [],
                rc_projectsByName = Map.empty \<rparr>)"

definition RushConfig_constructor :: "runtime \<Rightarrow> IRushConfigJson \<Rightarrow> string \<Rightarrow> error + RushConfig" where
  "RushConfig_constructor rt rushConfigJson rushJsonFilename =
     (case constructor_settings rt rushConfigJson rushJsonFilename of
        Inl e \<Rightarrow> Inl e
      | Inr this \<Rightarrow>
          (case build_projects (projects rushConfigJson) of
             Inl e \<Rightarrow> Inl e
           | Inr (projs, byName) \<Rightarrow>
               Inr (this\<lparr> rc_projects := projs, rc_projectsByName := byName \<rparr>)))"

subsection \<open>Loading\<close>

text \<open>
  The loaders act on the outside: they load files, run the schema validator and print.
  Each returns its result together with the calls it made, in order.
\<close>

datatype call =
    Call_loadJsonFile string
  | Call_loadRushSchema
  | Call_validate
  | Call_console_log string

text \<open>Lines 74 to 82: the check of the Rush version.\<close>

definition check_rushMinimumVersion :: "runtime \<Rightarrow> IRushConfigJson \<Rightarrow> error option" where
  "check_rushMinimumVersion rt rushConfigJson =
     (case rushMinimumVersion rushConfigJson of
        None \<Rightarrow> None
      | Some minimumVersion \<Rightarrow>
          if minimumVersion \<noteq> [] \<and> semver_valid rt minimumVersion
          then (if semver_lt rt (rushVersion rt) minimumVersion
                then Some (RushVersionTooOld (rushVersion rt) minimumVersion)
                else None)
          else None)"

text \<open>Lines 88 to 108: the schema validation and the construction of the object.\<close>

definition validate_and_construct ::
  "runtime \<Rightarrow> IRushConfigJson \<Rightarrow> string \<Rightarrow> (error + RushConfig) \<times> call list" where
  "validate_and_construct rt rushConfigJson rushJsonFilename =
     (let json = rushConfigJson\<lparr> schema := None \<rparr>
      in case loadRushSchema rt of
           Some message \<Rightarrow> (Inl (JsonFileError message), [Call_loadRushSchema])
         | None \<Rightarrow>
             (case validate rt json of
                Some detail \<Rightarrow>
                  (let errorMessage =
                         ''Error parsing file '' @ [CHR 0x27] @ path_basename rt rushJsonFilename
                         @ [CHR 0x27] @ '',section['' @ detail_path detail @ '']:'' @ os_EOL rt
                         @ ''('' @ detail_code detail @ '') '' @ detail_message detail
                   in (Inl (SchemaValidationFailed errorMessage),
                       [Call_loadRushSchema, Call_validate,
                        Call_console_log (os_EOL rt @ ''ERROR: '' @ errorMessage
                                          @ os_EOL rt @ os_EOL rt)]))
              | None \<Rightarrow>
                  (RushConfig_constructor rt json rushJsonFilename,
                   [Call_loadRushSchema, Call_validate])))"

definition loadFromConfigFile :: "runtime \<Rightarrow> string \<Rightarrow> (error + RushConfig) \<times> call list" where
  "loadFromConfigFile rt rushJsonFilename =
     (case loadJsonFile rt rushJsonFilename of
        Inl message \<Rightarrow> (Inl (JsonFileError message), [Call_loadJsonFile rushJsonFilename])
      | Inr rushConfigJson \<Rightarrow>
          (case check_rushMinimumVersion rt rushConfigJson of
             Some e \<Rightarrow> (Inl e, [Call_loadJsonFile rushJsonFilename])
           | None \<Rightarrow>
               (case validate_and_construct rt rushConfigJson rushJsonFilename of
                  (result, calls) \<Rightarrow> (result, Call_loadJsonFile rushJsonFilename # calls))))"

text \<open>
  Lines 112 to 131: the search for \<^verbatim>\<open>rush.json\<close>, from iteration \<open>i\<close> of the
  \<^verbatim>\<open>for\<close> loop on. The result is the iteration and the file name where the file was
  found, if it was, and the file names given to \<^verbatim>\<open>fs.existsSync\<close>, in order.
\<close>

function find_rush_json ::
  "runtime \<Rightarrow> nat \<Rightarrow> string \<Rightarrow> (nat \<times> string) option \<times> string list" where
  "find_rush_json rt i currentFolder =
     (if i < 10
      then (let rushJsonFilename = path_join rt currentFolder ''rush.json''
            in if fs_existsSync rt rushJsonFilename
               then (Some (i, rushJsonFilename), [rushJsonFilename])
               else (let parentFolder = path_dirname rt currentFolder
                     in if parentFolder = currentFolder
                        then (None, [rushJsonFilename])
                        else (case find_rush_json rt (i + 1) parentFolder of
                                (found, probed) \<Rightarrow> (found, rushJsonFilename # probed))))
      else (None, []))"
  by pat_completeness auto
termination
  by (relation "measure (\<lambda>(rt, i, currentFolder). 10 - i)") auto

declare find_rush_json.simps [simp del]

definition loadFromDefaultLocation :: "runtime \<Rightarrow> (error + RushConfig) \<times> call list" where
  "loadFromDefaultLocation rt =
     (case find_rush_json rt 0 (process_cwd rt) of
        (Some (i, rushJsonFilename), probed) \<Rightarrow>
          (case loadFromConfigFile rt rushJsonFilename of
             (result, calls) \<Rightarrow>
               (result,
                (if i > 0 then [Call_console_log (''Found config in '' @ rushJsonFilename)] else [])
                @ [Call_console_log []] @ calls))
      | (None, probed) \<Rightarrow> (Inl UnableToFindRushJson, []))"

subsection \<open>Notions used in the statements\<close>

text \<open>
  \<open>static\<close> forgets the derived sequence of a project, the only part that the second
  loop changes. \<open>index_ok\<close> says that the map from names sends each name to the position
  of the project of that name, and nothing else. \<open>declared\<close> is the list of the declared
  dependencies, empty when there is no \<^verbatim>\<open>dependencies\<close> object. \<open>pushes byName projs b i\<close>
  is what visiting position \<open>i\<close> appends to the downstream sequence at position \<open>b\<close>.
\<close>

definition static :: "RushConfigProject \<Rightarrow> RushConfigProject" where
  "static p = p\<lparr>downstreamDependencyProjects := []\<rparr>"

definition index_ok :: "(string \<rightharpoonup> nat) \<Rightarrow> RushConfigProject list \<Rightarrow> bool" where
  "index_ok byName projs \<longleftrightarrow>
     (\<forall>n i. byName n = Some i \<longleftrightarrow> i < length projs \<and> packageName (projs ! i) = n)"

definition declared :: "'a IRushConfigProjectJson_scheme \<Rightarrow> string list" where
  "declared p = (case dependencies p of None \<Rightarrow> [] | Some ds \<Rightarrow> ds)"

definition pushes :: "(string \<rightharpoonup> nat) \<Rightarrow> RushConfigProject list \<Rightarrow> nat \<Rightarrow> nat \<Rightarrow> string list" where
  "pushes byName projs b i =
     map (\<lambda>d. packageName (projs ! i)) (filter (\<lambda>d. byName d = Some b) (declared (projs ! i)))"

text \<open>
  \<open>initial_projects\<close> is the array \<^verbatim>\<open>_projects\<close> after the first loop, when no name is
  refused. \<open>resolves\<close> says that every \<^verbatim>\<open>cyclicDependencyProjects\<close> entry of the manifest
  is the name of a project of the manifest.
\<close>

definition initial_projects :: "IRushConfigProjectJson list \<Rightarrow> RushConfigProject list" where
  "initial_projects ps =
     map (\<lambda>(j, t). new_RushConfigProject j t) (generateTempNamesForProjects ps)"

definition resolves :: "IRushConfigProjectJson list \<Rightarrow> bool" where
  "resolves ps \<longleftrightarrow>
     (\<forall>p\<in>set ps. \<forall>c\<in>set (cyclicDependencyProjects p). c \<in> set (map packageName ps))"

section \<open>Example inputs\<close>

text \<open>Manifest entries, manifests and a runtime on which the theorems are instantiated.\<close>

definition project_entry ::
  "string \<Rightarrow> string list \<Rightarrow> string list option \<Rightarrow> IRushConfigProjectJson" where
  "project_entry name cyclic deps =
     \<lparr> packageName = name, projectFolder = ''projects/'' @ name, reviewCategory = None,
       cyclicDependencyProjects = cyclic, dependencies = deps \<rparr>"

definition scoped_manifest :: "IRushConfigProjectJson list" where
  "scoped_manifest = [project_entry ''@a/foo'' [] None, project_entry ''@b/foo'' [] None]"

definition scoped_manifest_swapped :: "IRushConfigProjectJson list" where
  "scoped_manifest_swapped = [project_entry ''@b/foo'' [] None, project_entry ''@a/foo'' [] None]"

definition lib_manifest :: "IRushConfigProjectJson list" where
  "lib_manifest =
     [project_entry ''@a/lib'' [] None, project_entry ''@b/lib'' [] (Some [''@a/lib'']),
      project_entry ''@c/lib'' [] None]"

text \<open>The scenario of the specification: \<open>app\<close> depends on \<open>core\<close> and \<open>utils\<close>, \<open>utils\<close> on \<open>core\<close>.\<close>

definition scenario_manifest :: "IRushConfigProjectJson list" where
  "scenario_manifest =
     [project_entry ''core'' [] None,
      project_entry ''utils'' [] (Some [''core'']),
      project_entry ''app'' [] (Some [''core'', ''utils''])]"

definition duplicate_manifest :: "IRushConfigProjectJson list" where
  "duplicate_manifest =
     [project_entry ''a'' [] None, project_entry ''b'' [] None, project_entry ''a'' [] None]"

definition ghost_manifest :: "IRushConfigProjectJson list" where
  "ghost_manifest = [project_entry ''a'' [] None, project_entry ''b'' [''ghost''] None]"

definition duplicate_ghost_manifest :: "IRushConfigProjectJson list" where
  "duplicate_ghost_manifest = [project_entry ''a'' [''ghost''] None, project_entry ''a'' [] None]"

text \<open>Two projects that depend on each other, without and with the whitelist entries.\<close>

definition cyclic_manifest :: "IRushConfigProjectJson list" where
  "cyclic_manifest =
     [project_entry ''a'' [] (Some [''b'']), project_entry ''b'' [] (Some [''a''])]"

definition whitelisted_cyclic_manifest :: "IRushConfigProjectJson list" where
  "whitelisted_cyclic_manifest =
     [project_entry ''a'' [''b''] (Some [''b'']), project_entry ''b'' [''a''] (Some [''a''])]"

definition example_config :: "IRushConfigProjectJson list \<Rightarrow> IRushConfigJson" where
  "example_config projectJsons =
     \<lparr> schema = Some ''rush-schema.json'', commonFolder = ''common'', npmVersion = ''3.10.8'',
       rushMinimumVersion = Some ''1.0.0'', nodeSupportedVersionRange = None,
       projectFolderMinDepth = None, projectFolderMaxDepth = None, packageReviewFile = None,
       reviewCategories = None, useLocalNpmCache = None, projects = projectJsons \<rparr>"

text \<open>
  An example runtime: a POSIX file system that holds \<^verbatim>\<open>/repo/rush.json\<close>,
  \<^verbatim>\<open>/repo/common\<close> and \<^verbatim>\<open>/home/dev\<close>, a process started in \<^verbatim>\<open>/repo/apps/tool\<close>, and a
  \<^verbatim>\<open>semver\<close> that knows three versions.
\<close>

definition posix_dirname :: "string \<Rightarrow> string" where
  "posix_dirname p =
     (let d = rev (tl (dropWhile (\<lambda>c. c \<noteq> CHR ''/'') (rev p)))
      in if d = [] then ''/'' else d)"

definition posix_basename :: "string \<Rightarrow> string" where
  "posix_basename p = rev (takeWhile (\<lambda>c. c \<noteq> CHR ''/'') (rev p))"

definition posix_join :: "string \<Rightarrow> string \<Rightarrow> string" where
  "posix_join a b = (if a = ''/'' then a @ b else a @ ''/'' @ b)"

definition example_runtime :: "IRushConfigJson \<Rightarrow> runtime" where
  "example_runtime rushJson =
     \<lparr> rushVersion = ''1.0.0'',
       process_version = ''v6.9.1'',
       process_cwd = ''/repo/apps/tool'',
       userFolder = ''/home/dev'',
       semver_valid = (\<lambda>v. v \<in> set [''0.9.0'', ''1.0.0'', ''2.0.0'']),
       semver_lt = (\<lambda>a b. (a, b) \<in> set [(''0.9.0'', ''1.0.0''), (''0.9.0'', ''2.0.0''),
                                          (''1.0.0'', ''2.0.0'')]),
       semver_validRange = (\<lambda>r. True),
       semver_satisfies = (\<lambda>v r. True),
       fs_existsSync = (\<lambda>f. f \<in> set [''/repo/rush.json'', ''/repo/common'', ''/home/dev'']),
       path_join = posix_join,
       path_resolve = (\<lambda>p. p),
       path_dirname = posix_dirname,
       path_basename = posix_basename,
       os_EOL = [CHR 0x0A],
       loadJsonFile = (\<lambda>f. if f = ''/repo/rush.json'' then Inr rushJson
                            else Inl (''File not found: '' @ f)),
       loadRushSchema = None,
       validate = (\<lambda>json. None) \<rparr>"

text \<open>
  The projects of the constructed graph, empty when the construction fails; and, in the
  words of the specification, a cycle of the dependency relation restricted to the edges
  that the whitelist does not cover: an edge goes from a project to a declared dependency
  that is a project of the manifest and is not in the \<^verbatim>\<open>cyclicDependencyProjects\<close> of the
  project, and a cycle is a non-empty path whose last project has an edge to the first.
\<close>

definition built :: "IRushConfigProjectJson list \<Rightarrow> RushConfigProject list" where
  "built ps = (case build_projects ps of Inl e \<Rightarrow> [] | Inr (projs, byName) \<Rightarrow> projs)"

definition unlisted_edge :: "IRushConfigProjectJson list \<Rightarrow> string \<Rightarrow> string \<Rightarrow> bool" where
  "unlisted_edge ps a b \<longleftrightarrow>
     b \<in> set (map packageName ps) \<and>
     (\<exists>p\<in>set ps. packageName p = a \<and> b \<in> set (declared p)
                 \<and> b \<notin> set (cyclicDependencyProjects p))"

definition unlisted_cycle :: "IRushConfigProjectJson list \<Rightarrow> string list \<Rightarrow> bool" where
  "unlisted_cycle ps path \<longleftrightarrow>
     path \<noteq> [] \<and> list_all (\<lambda>(a, b). unlisted_edge ps a b) (zip path (tl path @ [hd path]))"

text \<open>
  For the search of \<^verbatim>\<open>rush.json\<close>: \<open>probe rt folder k\<close> is the file name tried \<open>k\<close>
  levels above the folder, \<open>at_root\<close> says that a folder is its own parent, and
  \<open>search_ok\<close> describes the result of the search from iteration \<open>i\<close> on. \<open>empty_disk\<close>
  is a runtime whose file system holds nothing.
\<close>

definition probe :: "runtime \<Rightarrow> string \<Rightarrow> nat \<Rightarrow> string" where
  "probe rt folder k = path_join rt ((path_dirname rt ^^ k) folder) ''rush.json''"

definition at_root :: "runtime \<Rightarrow> string \<Rightarrow> bool" where
  "at_root rt folder \<longleftrightarrow> path_dirname rt folder = folder"

definition search_ok ::
  "runtime \<Rightarrow> nat \<Rightarrow> string \<Rightarrow> (nat \<times> string) option \<times> string list \<Rightarrow> bool" where
  "search_ok rt i folder r \<longleftrightarrow>
     (\<exists>n. n \<le> 10 - i \<and> snd r = map (probe rt folder) [0..<n] \<and>
        (case fst r of
           Some (j, f) \<Rightarrow> j = i + n - 1 \<and> 0 < n \<and> f = probe rt folder (n - 1)
                          \<and> fs_existsSync rt f
                          \<and> (\<forall>k<n - 1. \<not> fs_existsSync rt (probe rt folder k))
         | None \<Rightarrow> (\<forall>k<n. \<not> fs_existsSync rt (probe rt folder k))
                   \<and> (n = 10 - i \<or> (0 < n \<and> at_root rt ((path_dirname rt ^^ (n - 1)) folder)))))"

definition empty_disk :: "runtime \<Rightarrow> runtime" where
  "empty_disk rt = rt\<lparr> fs_existsSync := (\<lambda>f. False) \<rparr>"

text \<open>
  \<open>is_version_error\<close> recognises the error of the version check. \<open>requiring v\<close> sets the
  \<^verbatim>\<open>rushMinimumVersion\<close> of a configuration file.
\<close>

fun is_version_error :: "error \<Rightarrow> bool" where
  "is_version_error (RushVersionTooOld v m) = True"
| "is_version_error e = False"

definition requiring :: "string option \<Rightarrow> IRushConfigJson \<Rightarrow> IRushConfigJson" where
  "requiring v rushConfigJson = rushConfigJson\<lparr> rushMinimumVersion := v \<rparr>"

section \<open>Properties of the temp-name generator\<close>

lemma unique_name_loop_fresh: "unique_name_loop used u c t \<notin> set used"
  by (induction used u c t rule: unique_name_loop.induct)
     (subst unique_name_loop.simps, simp)

lemma localeCompare_refl: "localeCompare s s = 0"
  by (induction s) auto

lemma Array_sort_self_compare:
  "Array_sort (\<lambda>a b. localeCompare (f a) (f a)) xs = xs"
proof -
  have ins: "insert_sorted (\<lambda>a b. localeCompare (f a) (f a)) x ys = x # ys" for x ys
    by (cases ys) (simp_all add: localeCompare_refl)
  show ?thesis unfolding Array_sort_def by (induction xs) (simp_all add: ins)
qed

lemma assign_temp_names_fst: "map fst (assign_temp_names used ps) = ps"
  by (induction ps arbitrary: used) (simp_all add: Let_def)

lemma assign_temp_names_fresh:
  "set (map snd (assign_temp_names used ps)) \<inter> set used = {}"
proof (induction ps arbitrary: used)
  case Nil
  then show ?case by simp
next
  case (Cons p ps)
  let ?u = "parseScopedPackgeName_name (packageName p)"
  let ?t = "unique_name_loop used ?u 0 (''rush-'' @ ?u)"
  have "?t \<notin> set used" by (rule unique_name_loop_fresh)
  moreover have "set (map snd (assign_temp_names (used @ [?t]) ps)) \<inter> set (used @ [?t]) = {}"
    by (rule Cons.IH)
  ultimately show ?case by (auto simp: Let_def)
qed

lemma assign_temp_names_distinct: "distinct (map snd (assign_temp_names used ps))"
proof (induction ps arbitrary: used)
  case Nil
  then show ?case by simp
next
  case (Cons p ps)
  let ?u = "parseScopedPackgeName_name (packageName p)"
  let ?t = "unique_name_loop used ?u 0 (''rush-'' @ ?u)"
  have "set (map snd (assign_temp_names (used @ [?t]) ps)) \<inter> set (used @ [?t]) = {}"
    by (rule assign_temp_names_fresh)
  then have "?t \<notin> set (map snd (assign_temp_names (used @ [?t]) ps))" by auto
  with Cons.IH [of "used @ [?t]"] show ?case by (simp add: Let_def)
qed

lemma generateTempNames_fst: "map fst (generateTempNamesForProjects ps) = ps"
  by (simp add: generateTempNamesForProjects_def Array_sort_self_compare assign_temp_names_fst)

lemma generateTempNames_distinct: "distinct (map snd (generateTempNamesForProjects ps))"
  by (simp add: generateTempNamesForProjects_def assign_temp_names_distinct)

section \<open>Properties of the project loops\<close>

lemma index_ok_empty: "index_ok Map.empty []"
  by (simp add: index_ok_def)

lemma index_ok_defined:
  assumes "index_ok byName projs"
  shows "byName n \<noteq> None \<longleftrightarrow> n \<in> set (map packageName projs)"
proof
  assume "byName n \<noteq> None"
  then obtain i where "byName n = Some i" by auto
  with assms have "i < length projs" "packageName (projs ! i) = n" by (auto simp: index_ok_def)
  then show "n \<in> set (map packageName projs)" by (metis length_map nth_map nth_mem)
next
  assume "n \<in> set (map packageName projs)"
  then obtain i where "i < length projs" "packageName (projs ! i) = n"
    by (auto simp: in_set_conv_nth)
  with assms have "byName n = Some i" by (simp add: index_ok_def)
  then show "byName n \<noteq> None" by simp
qed

lemma index_ok_distinct: "index_ok byName projs \<Longrightarrow> distinct (map packageName projs)"
  by (auto simp: index_ok_def distinct_conv_nth) (metis option.inject)

lemma index_ok_snoc:
  assumes "index_ok byName projs" and "byName (packageName p) = None"
  shows "index_ok (byName(packageName p \<mapsto> length projs)) (projs @ [p])"
proof -
  have fresh: "packageName (projs ! i) \<noteq> packageName p" if "i < length projs" for i
    using assms that unfolding index_ok_def by (metis option.distinct(1))
  show ?thesis
    using assms(1) fresh unfolding index_ok_def
    by (auto simp: nth_append less_Suc_eq)
qed

lemma packageName_new [simp]: "packageName (new_RushConfigProject j t) = packageName j"
  by (simp add: new_RushConfigProject_def)

lemma add_projects_step:
  "byName (packageName j) = None \<Longrightarrow>
   add_projects ((j, t) # rest) projs byName =
   add_projects rest (projs @ [new_RushConfigProject j t]) (byName(packageName j \<mapsto> length projs))"
  by (simp add: Let_def)

lemma add_projects_stop:
  "byName (packageName j) \<noteq> None \<Longrightarrow>
   add_projects ((j, t) # rest) projs byName = Inl (ProjectSpecifiedMoreThanOnce (packageName j))"
  by (simp add: Let_def)

lemma add_projects_distinct:
  assumes "index_ok byName projs"
    and "distinct (map packageName projs @ map (packageName \<circ> fst) pairs)"
  shows "\<exists>byName'. add_projects pairs projs byName
            = Inr (projs @ map (\<lambda>(j, t). new_RushConfigProject j t) pairs, byName')
          \<and> index_ok byName' (projs @ map (\<lambda>(j, t). new_RushConfigProject j t) pairs)"
  using assms
proof (induction pairs arbitrary: projs byName)
  case Nil
  then show ?case by simp
next
  case (Cons pr pairs)
  obtain j t where pr: "pr = (j, t)" by (cases pr)
  let ?p = "new_RushConfigProject j t"
  from Cons.prems have fresh: "byName (packageName j) = None"
    using index_ok_defined [OF Cons.prems(1), of "packageName j"] by (auto simp: pr)
  then have fresh': "byName (packageName ?p) = None" by simp
  have "index_ok (byName(packageName ?p \<mapsto> length projs)) (projs @ [?p])"
    using Cons.prems(1) fresh' by (rule index_ok_snoc)
  then have ok: "index_ok (byName(packageName j \<mapsto> length projs)) (projs @ [?p])" by simp
  have dist: "distinct (map packageName (projs @ [?p]) @ map (packageName \<circ> fst) pairs)"
    using Cons.prems(2) by (simp add: pr comp_def)
  from Cons.IH [OF ok dist] obtain byName' where
    "add_projects pairs (projs @ [?p]) (byName(packageName j \<mapsto> length projs))
       = Inr ((projs @ [?p]) @ map (\<lambda>(j, t). new_RushConfigProject j t) pairs, byName')"
    "index_ok byName' ((projs @ [?p]) @ map (\<lambda>(j, t). new_RushConfigProject j t) pairs)"
    by blast
  then show ?case unfolding pr add_projects_step [of byName j, OF fresh] by simp
qed

lemma add_projects_duplicate:
  assumes "index_ok byName projs"
    and "\<not> distinct (map packageName projs @ map (packageName \<circ> fst) pairs)"
  shows "\<exists>n. add_projects pairs projs byName = Inl (ProjectSpecifiedMoreThanOnce n)
          \<and> 2 \<le> count_list (map packageName projs @ map (packageName \<circ> fst) pairs) n"
  using assms
proof (induction pairs arbitrary: projs byName)
  case Nil
  then show ?case using index_ok_distinct by auto
next
  case (Cons pr pairs)
  obtain j t where pr: "pr = (j, t)" by (cases pr)
  let ?p = "new_RushConfigProject j t"
  show ?case
  proof (cases "byName (packageName j) = None")
    case True
    then have fresh: "byName (packageName ?p) = None" by simp
    have "index_ok (byName(packageName ?p \<mapsto> length projs)) (projs @ [?p])"
      using Cons.prems(1) fresh by (rule index_ok_snoc)
    then have ok: "index_ok (byName(packageName j \<mapsto> length projs)) (projs @ [?p])" by simp
    have dist: "\<not> distinct (map packageName (projs @ [?p]) @ map (packageName \<circ> fst) pairs)"
      using Cons.prems(2) by (simp add: pr comp_def)
    from Cons.IH [OF ok dist] obtain n where
      "add_projects pairs (projs @ [?p]) (byName(packageName j \<mapsto> length projs))
         = Inl (ProjectSpecifiedMoreThanOnce n)"
      "2 \<le> count_list (map packageName (projs @ [?p]) @ map (packageName \<circ> fst) pairs) n"
      by blast
    then show ?thesis unfolding pr add_projects_step [of byName j, OF True]
      by (intro exI [of _ n]) (simp add: comp_def)
  next
    case False
    then have "packageName j \<in> set (map packageName projs)"
      using index_ok_defined [OF Cons.prems(1)] by simp
    then have "count_list (map packageName projs) (packageName j) \<noteq> 0"
      by (simp only: count_list_0_iff not_not)
    then have "1 \<le> count_list (map packageName projs) (packageName j)"
      by simp
    then have "2 \<le> count_list (map packageName projs @ map (packageName \<circ> fst) (pr # pairs)) (packageName j)"
      by (simp add: pr)
    then show ?thesis unfolding pr add_projects_stop [of byName j, OF False] by blast
  qed
qed


lemma static_fields [simp]:
  "packageName (static p) = packageName p"
  "cyclicDependencyProjects (static p) = cyclicDependencyProjects p"
  "dependencies (static p) = dependencies p"
  "tempProjectName (static p) = tempProjectName p"
  by (simp_all add: static_def)

lemma static_nth:
  assumes "map static xs = map static ys" and "k < length xs"
  shows "static (xs ! k) = static (ys ! k)"
proof -
  from assms(1) have "length xs = length ys" by (metis length_map)
  with assms show ?thesis by (metis nth_map)
qed

lemma static_same_fields:
  assumes "map static xs = map static ys" and "k < length xs"
  shows "packageName (xs ! k) = packageName (ys ! k)"
    and "cyclicDependencyProjects (xs ! k) = cyclicDependencyProjects (ys ! k)"
    and "dependencies (xs ! k) = dependencies (ys ! k)"
    and "tempProjectName (xs ! k) = tempProjectName (ys ! k)"
    and "declared (xs ! k) = declared (ys ! k)"
proof -
  have eq: "static (xs ! k) = static (ys ! k)" using assms by (rule static_nth)
  show "packageName (xs ! k) = packageName (ys ! k)"
    using arg_cong [OF eq, of packageName] by simp
  show "cyclicDependencyProjects (xs ! k) = cyclicDependencyProjects (ys ! k)"
    using arg_cong [OF eq, of cyclicDependencyProjects] by simp
  show d: "dependencies (xs ! k) = dependencies (ys ! k)"
    using arg_cong [OF eq, of dependencies] by simp
  show "tempProjectName (xs ! k) = tempProjectName (ys ! k)"
    using arg_cong [OF eq, of tempProjectName] by simp
  show "declared (xs ! k) = declared (ys ! k)"
    using d by (simp add: declared_def)
qed

lemma push_downstream_length [simp]: "length (push_downstream projs i n) = length projs"
  by (simp add: push_downstream_def)

lemma push_downstream_static [simp]: "map static (push_downstream projs i n) = map static projs"
proof (cases "i < length projs")
  case True
  have "static ((projs ! i)\<lparr>downstreamDependencyProjects :=
          downstreamDependencyProjects (projs ! i) @ [n]\<rparr>) = static (projs ! i)"
    by (simp add: static_def)
  then show ?thesis using True
    by (simp add: push_downstream_def map_update) (metis list_update_id map_update)
next
  case False
  then have "length projs \<le> i" by simp
  then show ?thesis by (simp add: push_downstream_def list_update_beyond)
qed

lemma push_downstream_nth:
  "b < length projs \<Longrightarrow>
   downstreamDependencyProjects (push_downstream projs i n ! b) =
   downstreamDependencyProjects (projs ! b) @ (if i = b then [n] else [])"
  by (simp add: push_downstream_def nth_list_update)

lemma add_downstream_length [simp]: "length (add_downstream byName n ds projs) = length projs"
  by (induction ds arbitrary: projs) (simp_all split: option.splits)

lemma add_downstream_static [simp]:
  "map static (add_downstream byName n ds projs) = map static projs"
  by (induction ds arbitrary: projs) (simp_all split: option.splits)

lemma add_downstream_nth:
  "b < length projs \<Longrightarrow>
   downstreamDependencyProjects (add_downstream byName n ds projs ! b) =
   downstreamDependencyProjects (projs ! b) @ map (\<lambda>d. n) (filter (\<lambda>d. byName d = Some b) ds)"
proof (induction ds arbitrary: projs)
  case Nil
  then show ?case by simp
next
  case (Cons d ds)
  show ?case
  proof (cases "byName d")
    case None
    with Cons show ?thesis by simp
  next
    case (Some i)
    from Cons.prems have "b < length (push_downstream projs i n)" by simp
    from Cons.IH [OF this] Cons.prems Some show ?thesis
      by (simp add: push_downstream_nth)
  qed
qed

lemma check_cyclic_None:
  "check_cyclicDependencyProjects byName n cs = None \<longleftrightarrow> (\<forall>c\<in>set cs. byName c \<noteq> None)"
  by (induction cs) auto

lemma check_cyclic_Some:
  "check_cyclicDependencyProjects byName n cs = Some e \<Longrightarrow>
   \<exists>c\<in>set cs. byName c = None \<and> e = CyclicDependencyProjectDoesNotExist c n"
  by (induction cs) (auto split: if_splits)

lemma link_projects_step:
  "check_cyclicDependencyProjects byName (packageName (projs ! i))
     (cyclicDependencyProjects (projs ! i)) = None \<Longrightarrow>
   link_projects byName (i # rest) projs =
   link_projects byName rest
     (add_downstream byName (packageName (projs ! i)) (declared (projs ! i)) projs)"
  by (simp add: Let_def declared_def split: option.splits)

lemma link_projects_stop:
  "check_cyclicDependencyProjects byName (packageName (projs ! i))
     (cyclicDependencyProjects (projs ! i)) = Some e \<Longrightarrow>
   link_projects byName (i # rest) projs = Inl e"
  by (simp add: Let_def)

lemma pushes_static:
  assumes "map static xs = map static ys" and "i < length xs"
  shows "pushes byName xs b i = pushes byName ys b i"
  using static_same_fields(1,5) [OF assms] by (simp add: pushes_def)

lemma link_projects_ok:
  assumes "\<forall>i\<in>set idxs. i < length projs"
    and "\<forall>i\<in>set idxs. \<forall>c\<in>set (cyclicDependencyProjects (projs ! i)). byName c \<noteq> None"
  shows "\<exists>projs'. link_projects byName idxs projs = Inr projs'
           \<and> map static projs' = map static projs
           \<and> (\<forall>b<length projs. downstreamDependencyProjects (projs' ! b) =
                 downstreamDependencyProjects (projs ! b)
                 @ concat (map (pushes byName projs b) idxs))"
  using assms
proof (induction idxs arbitrary: projs)
  case Nil
  then show ?case by simp
next
  case (Cons i idxs)
  let ?n = "packageName (projs ! i)"
  let ?projs1 = "add_downstream byName ?n (declared (projs ! i)) projs"
  from Cons.prems have i: "i < length projs" by simp
  from Cons.prems(2) have chk: "check_cyclicDependencyProjects byName ?n
       (cyclicDependencyProjects (projs ! i)) = None"
    by (simp add: check_cyclic_None)
  have st: "map static ?projs1 = map static projs" by simp
  have len: "length ?projs1 = length projs" by simp
  have p1: "\<forall>k\<in>set idxs. k < length ?projs1" using Cons.prems(1) by simp
  have p2: "\<forall>k\<in>set idxs. \<forall>c\<in>set (cyclicDependencyProjects (?projs1 ! k)). byName c \<noteq> None"
  proof
    fix k assume k: "k \<in> set idxs"
    then have "k < length ?projs1" using p1 by blast
    from static_same_fields(2) [OF st this] Cons.prems(2) k
    show "\<forall>c\<in>set (cyclicDependencyProjects (?projs1 ! k)). byName c \<noteq> None" by simp
  qed
  from Cons.IH [OF p1 p2] obtain projs' where
    r: "link_projects byName idxs ?projs1 = Inr projs'"
    and s: "map static projs' = map static ?projs1"
    and d: "\<forall>b<length ?projs1. downstreamDependencyProjects (projs' ! b) =
              downstreamDependencyProjects (?projs1 ! b)
              @ concat (map (pushes byName ?projs1 b) idxs)"
    by blast
  have same: "map (pushes byName ?projs1 b) idxs = map (pushes byName projs b) idxs" for b
  proof (rule map_cong [OF refl])
    fix k assume "k \<in> set idxs"
    then have "k < length ?projs1" using p1 by blast
    from pushes_static [OF st this] show "pushes byName ?projs1 b k = pushes byName projs b k" .
  qed
  have "\<forall>b<length projs. downstreamDependencyProjects (projs' ! b) =
          downstreamDependencyProjects (projs ! b)
          @ concat (map (pushes byName projs b) (i # idxs))"
  proof (intro allI impI)
    fix b assume b: "b < length projs"
    then have "downstreamDependencyProjects (projs' ! b) =
        downstreamDependencyProjects (?projs1 ! b) @ concat (map (pushes byName ?projs1 b) idxs)"
      using d len by simp
    also have "downstreamDependencyProjects (?projs1 ! b) =
        downstreamDependencyProjects (projs ! b) @ pushes byName projs b i"
      using add_downstream_nth [OF b] by (simp add: pushes_def)
    finally show "downstreamDependencyProjects (projs' ! b) =
          downstreamDependencyProjects (projs ! b)
          @ concat (map (pushes byName projs b) (i # idxs))"
      by (simp add: same)
  qed
  with r s st show ?case unfolding link_projects_step [OF chk] by simp
qed

lemma link_projects_fail:
  assumes "\<forall>i\<in>set idxs. i < length projs"
    and "\<not> (\<forall>i\<in>set idxs. \<forall>c\<in>set (cyclicDependencyProjects (projs ! i)). byName c \<noteq> None)"
  shows "\<exists>c i. i \<in> set idxs \<and> c \<in> set (cyclicDependencyProjects (projs ! i)) \<and> byName c = None
           \<and> link_projects byName idxs projs
               = Inl (CyclicDependencyProjectDoesNotExist c (packageName (projs ! i)))"
  using assms
proof (induction idxs arbitrary: projs)
  case Nil
  then show ?case by simp
next
  case (Cons i idxs)
  let ?n = "packageName (projs ! i)"
  let ?projs1 = "add_downstream byName ?n (declared (projs ! i)) projs"
  show ?case
  proof (cases "check_cyclicDependencyProjects byName ?n (cyclicDependencyProjects (projs ! i))")
    case None
    have st: "map static ?projs1 = map static projs" by simp
    have p1: "\<forall>k\<in>set idxs. k < length ?projs1" using Cons.prems(1) by simp
    from None have here: "\<forall>c\<in>set (cyclicDependencyProjects (projs ! i)). byName c \<noteq> None"
      by (simp add: check_cyclic_None)
    with Cons.prems(2) obtain k c where k: "k \<in> set idxs"
      and c: "c \<in> set (cyclicDependencyProjects (projs ! k))" "byName c = None"
      by auto
    from k p1 have kl: "k < length ?projs1" by blast
    from c static_same_fields(2) [OF st kl]
    have "c \<in> set (cyclicDependencyProjects (?projs1 ! k))" by simp
    with k c(2)
    have p2: "\<not> (\<forall>k\<in>set idxs. \<forall>c\<in>set (cyclicDependencyProjects (?projs1 ! k)). byName c \<noteq> None)"
      by blast
    from Cons.IH [OF p1 p2] obtain c' k' where
      f: "k' \<in> set idxs" "c' \<in> set (cyclicDependencyProjects (?projs1 ! k'))" "byName c' = None"
      "link_projects byName idxs ?projs1
         = Inl (CyclicDependencyProjectDoesNotExist c' (packageName (?projs1 ! k')))"
      by blast
    from f(1) p1 have k'l: "k' < length ?projs1" by blast
    note sf = static_same_fields(1,2) [OF st k'l]
    from f sf show ?thesis unfolding link_projects_step [OF None]
      by (intro exI [of _ c'] exI [of _ k']) simp
  next
    case (Some e)
    from check_cyclic_Some [OF Some] obtain c where
      "c \<in> set (cyclicDependencyProjects (projs ! i))" "byName c = None"
      "e = CyclicDependencyProjectDoesNotExist c ?n"
      by blast
    then show ?thesis unfolding link_projects_stop [OF Some]
      by (intro exI [of _ c] exI [of _ i]) simp
  qed
qed

lemma new_fields [simp]:
  "cyclicDependencyProjects (new_RushConfigProject j t) = cyclicDependencyProjects j"
  "dependencies (new_RushConfigProject j t) = dependencies j"
  "tempProjectName (new_RushConfigProject j t) = t"
  "downstreamDependencyProjects (new_RushConfigProject j t) = []"
  "declared (new_RushConfigProject j t) = declared j"
  by (simp_all add: new_RushConfigProject_def declared_def)

lemma initial_projects_length [simp]: "length (initial_projects ps) = length ps"
  using arg_cong [OF generateTempNames_fst [of ps], of length]
  by (simp add: initial_projects_def)

lemma initial_projects_nth:
  assumes "i < length ps"
  shows "initial_projects ps ! i
           = new_RushConfigProject (ps ! i) (snd (generateTempNamesForProjects ps ! i))"
proof -
  let ?g = "generateTempNamesForProjects ps"
  have len: "length ?g = length ps"
    using arg_cong [OF generateTempNames_fst [of ps], of length] by simp
  have "fst (?g ! i) = ps ! i"
    using assms len generateTempNames_fst [of ps] by (metis nth_map)
  then show ?thesis using assms len
    by (simp add: initial_projects_def case_prod_beta)
qed

lemma initial_projects_names: "map packageName (initial_projects ps) = map packageName ps"
  by (rule nth_equalityI) (simp_all add: initial_projects_nth)

lemma initial_projects_tempNames:
  "map tempProjectName (initial_projects ps) = map snd (generateTempNamesForProjects ps)"
proof (rule nth_equalityI)
  show "length (map tempProjectName (initial_projects ps))
          = length (map snd (generateTempNamesForProjects ps))"
    using arg_cong [OF generateTempNames_fst [of ps], of length] by simp
next
  fix i assume "i < length (map tempProjectName (initial_projects ps))"
  then have i: "i < length ps" by simp
  moreover have "length (generateTempNamesForProjects ps) = length ps"
    using arg_cong [OF generateTempNames_fst [of ps], of length] by simp
  ultimately show "map tempProjectName (initial_projects ps) ! i
          = map snd (generateTempNamesForProjects ps) ! i"
    by (simp add: initial_projects_nth)
qed

lemma add_projects_initial_distinct:
  assumes "distinct (map packageName ps)"
  shows "\<exists>byName. add_projects (generateTempNamesForProjects ps) [] Map.empty
            = Inr (initial_projects ps, byName)
          \<and> index_ok byName (initial_projects ps)"
proof -
  have "map (packageName \<circ> fst) (generateTempNamesForProjects ps) = map packageName ps"
    using arg_cong [OF generateTempNames_fst [of ps], of "map packageName"] by simp
  with assms have "distinct (map packageName ([]::RushConfigProject list)
      @ map (packageName \<circ> fst) (generateTempNamesForProjects ps))" by simp
  from add_projects_distinct [OF index_ok_empty this] show ?thesis
    by (simp add: initial_projects_def)
qed

lemma build_projects_duplicate:
  assumes "\<not> distinct (map packageName ps)"
  shows "\<exists>n. build_projects ps = Inl (ProjectSpecifiedMoreThanOnce n)
           \<and> 2 \<le> count_list (map packageName ps) n"
proof -
  have eq: "map (packageName \<circ> fst) (generateTempNamesForProjects ps) = map packageName ps"
    using arg_cong [OF generateTempNames_fst [of ps], of "map packageName"] by simp
  with assms have "\<not> distinct (map packageName ([]::RushConfigProject list)
      @ map (packageName \<circ> fst) (generateTempNamesForProjects ps))" by simp
  from add_projects_duplicate [OF index_ok_empty this] eq show ?thesis
    by (auto simp: build_projects_def)
qed

lemma resolves_initial:
  assumes "index_ok byName (initial_projects ps)"
  shows "resolves ps \<longleftrightarrow>
     (\<forall>i\<in>set [0..<length (initial_projects ps)].
        \<forall>c\<in>set (cyclicDependencyProjects (initial_projects ps ! i)). byName c \<noteq> None)"
proof -
  have known: "byName c \<noteq> None \<longleftrightarrow> c \<in> set (map packageName ps)" for c
    using index_ok_defined [OF assms, of c] by (simp only: initial_projects_names)
  have "resolves ps \<longleftrightarrow>
     (\<forall>i<length ps. \<forall>c\<in>set (cyclicDependencyProjects (ps ! i)). c \<in> set (map packageName ps))"
    unfolding resolves_def by (metis in_set_conv_nth nth_mem)
  also have "\<dots> \<longleftrightarrow>
     (\<forall>i<length ps. \<forall>c\<in>set (cyclicDependencyProjects (ps ! i)). byName c \<noteq> None)"
    by (simp only: known)
  finally show ?thesis by (auto simp: initial_projects_nth)
qed

lemma build_projects_unresolved:
  assumes "distinct (map packageName ps)" and "\<not> resolves ps"
  shows "\<exists>c i. i < length ps \<and> c \<in> set (cyclicDependencyProjects (ps ! i))
           \<and> c \<notin> set (map packageName ps)
           \<and> build_projects ps
               = Inl (CyclicDependencyProjectDoesNotExist c (packageName (ps ! i)))"
proof -
  from add_projects_initial_distinct [OF assms(1)] obtain byName where
    a: "add_projects (generateTempNamesForProjects ps) [] Map.empty
          = Inr (initial_projects ps, byName)"
    and ok: "index_ok byName (initial_projects ps)" by blast
  let ?P = "initial_projects ps"
  have rng: "\<forall>i\<in>set [0..<length ?P]. i < length ?P" by simp
  from assms(2) resolves_initial [OF ok]
  have "\<not> (\<forall>i\<in>set [0..<length ?P].
        \<forall>c\<in>set (cyclicDependencyProjects (?P ! i)). byName c \<noteq> None)" by simp
  from link_projects_fail [OF rng this] obtain c i where
    f: "i \<in> set [0..<length ?P]" "c \<in> set (cyclicDependencyProjects (?P ! i))"
       "byName c = None"
       "link_projects byName [0..<length ?P] ?P
          = Inl (CyclicDependencyProjectDoesNotExist c (packageName (?P ! i)))"
    by blast
  from f(1) have i: "i < length ps" by simp
  from f(3) index_ok_defined [OF ok, of c] have "c \<notin> set (map packageName ps)"
    by (simp only: initial_projects_names) simp
  moreover from f(2) i have "c \<in> set (cyclicDependencyProjects (ps ! i))"
    by (simp add: initial_projects_nth)
  moreover have "build_projects ps
               = Inl (CyclicDependencyProjectDoesNotExist c (packageName (ps ! i)))"
    using a f(4) i by (simp add: build_projects_def initial_projects_nth)
  ultimately show ?thesis using i by blast
qed

lemma build_projects_accepted:
  assumes "distinct (map packageName ps)" and "resolves ps"
  shows "\<exists>projs byName. build_projects ps = Inr (projs, byName)
           \<and> index_ok byName (initial_projects ps)
           \<and> map static projs = map static (initial_projects ps)
           \<and> (\<forall>b<length ps. downstreamDependencyProjects (projs ! b) =
                 concat (map (pushes byName (initial_projects ps) b) [0..<length ps]))"
proof -
  from add_projects_initial_distinct [OF assms(1)] obtain byName where
    a: "add_projects (generateTempNamesForProjects ps) [] Map.empty
          = Inr (initial_projects ps, byName)"
    and ok: "index_ok byName (initial_projects ps)" by blast
  let ?P = "initial_projects ps"
  have rng: "\<forall>i\<in>set [0..<length ?P]. i < length ?P" by simp
  from assms(2) resolves_initial [OF ok]
  have "\<forall>i\<in>set [0..<length ?P].
        \<forall>c\<in>set (cyclicDependencyProjects (?P ! i)). byName c \<noteq> None" by simp
  from link_projects_ok [OF rng this] obtain projs where
    l: "link_projects byName [0..<length ?P] ?P = Inr projs"
    and s: "map static projs = map static ?P"
    and d: "\<forall>b<length ?P. downstreamDependencyProjects (projs ! b) =
              downstreamDependencyProjects (?P ! b)
              @ concat (map (pushes byName ?P b) [0..<length ?P])"
    by blast
  have "build_projects ps = Inr (projs, byName)"
    using a l by (simp add: build_projects_def)
  moreover have "\<forall>b<length ps. downstreamDependencyProjects (projs ! b) =
                 concat (map (pushes byName ?P b) [0..<length ps])"
    using d by (simp add: initial_projects_nth)
  ultimately show ?thesis using ok s by blast
qed


lemma build_projects_Inr:
  assumes "build_projects ps = Inr (projs, byName)"
  shows "distinct (map packageName ps)" and "resolves ps"
    and "index_ok byName (initial_projects ps)"
    and "map static projs = map static (initial_projects ps)"
    and "\<forall>b<length ps. downstreamDependencyProjects (projs ! b) =
           concat (map (pushes byName (initial_projects ps) b) [0..<length ps])"
proof -
  show d: "distinct (map packageName ps)"
    using build_projects_duplicate [of ps] assms by auto
  show r: "resolves ps"
    using build_projects_unresolved [OF d] assms by auto
  from build_projects_accepted [OF d r] assms
  show "index_ok byName (initial_projects ps)"
    and "map static projs = map static (initial_projects ps)"
    and "\<forall>b<length ps. downstreamDependencyProjects (projs ! b) =
           concat (map (pushes byName (initial_projects ps) b) [0..<length ps])"
    by auto
qed

lemma built_projects_fields:
  assumes "build_projects ps = Inr (projs, byName)"
  shows "length projs = length ps"
    and "i < length ps \<Longrightarrow> packageName (projs ! i) = packageName (ps ! i)"
    and "i < length ps \<Longrightarrow> tempProjectName (projs ! i) = snd (generateTempNamesForProjects ps ! i)"
    and "i < length ps \<Longrightarrow> byName (packageName (ps ! i)) = Some i"
proof -
  note st = build_projects_Inr(4) [OF assms]
  show len: "length projs = length ps"
    using arg_cong [OF st, of length] by simp
  show "packageName (projs ! i) = packageName (ps ! i)" if "i < length ps"
    using static_same_fields(1) [OF st, of i] that len by (simp add: initial_projects_nth)
  show "tempProjectName (projs ! i) = snd (generateTempNamesForProjects ps ! i)" if "i < length ps"
    using static_same_fields(4) [OF st, of i] that len by (simp add: initial_projects_nth)
  show "byName (packageName (ps ! i)) = Some i" if "i < length ps"
    using build_projects_Inr(3) [OF assms] that
    by (simp add: index_ok_def initial_projects_nth)
qed

lemma built_downstream_set:
  assumes "build_projects ps = Inr (projs, byName)" and "b < length ps"
  shows "set (downstreamDependencyProjects (projs ! b)) =
         {packageName (ps ! a) | a. a < length ps \<and> packageName (ps ! b) \<in> set (declared (ps ! a))}"
proof -
  let ?P = "initial_projects ps"
  note ok = build_projects_Inr(3) [OF assms(1)]
  have hit: "byName d = Some b \<longleftrightarrow> d = packageName (ps ! b)" for d
    using ok assms(2) by (auto simp: index_ok_def initial_projects_nth)
  have p: "set (pushes byName ?P b a) =
       (if packageName (ps ! b) \<in> set (declared (ps ! a)) then {packageName (ps ! a)} else {})"
    if "a < length ps" for a
    using that by (auto simp: pushes_def initial_projects_nth hit)
  have "set (downstreamDependencyProjects (projs ! b)) =
        (\<Union>a\<in>{0..<length ps}. set (pushes byName ?P b a))"
    using build_projects_Inr(5) [OF assms(1)] assms(2) by simp
  also have "\<dots> = {packageName (ps ! a) | a.
        a < length ps \<and> packageName (ps ! b) \<in> set (declared (ps ! a))}"
    using p by (auto split: if_splits)
  finally show ?thesis .
qed

lemma Inl_from_projl: "isl x \<Longrightarrow> projl x = e \<Longrightarrow> x = Inl e"
  by (cases x) auto

lemma constructor_of_failed_build:
  assumes "build_projects (projects rushConfigJson) = Inl e"
  shows "isl (RushConfig_constructor rt rushConfigJson filename)"
    and "\<not> isl (constructor_settings rt rushConfigJson filename) \<Longrightarrow>
         RushConfig_constructor rt rushConfigJson filename = Inl e"
  using assms by (auto simp: RushConfig_constructor_def split: sum.splits)

lemma constructor_of_accepted_build:
  assumes "\<not> isl (build_projects (projects rushConfigJson))"
    and "\<not> isl (constructor_settings rt rushConfigJson filename)"
  shows "\<not> isl (RushConfig_constructor rt rushConfigJson filename)"
  using assms by (auto simp: RushConfig_constructor_def split: sum.splits)

section \<open>Properties of the search for the configuration file\<close>

lemma probe_0 [simp]: "probe rt folder 0 = path_join rt folder ''rush.json''"
  by (simp add: probe_def)

lemma probe_parent: "probe rt (path_dirname rt folder) k = probe rt folder (Suc k)"
  by (simp add: probe_def funpow_swap1)

lemma map_probe_Suc:
  "probe rt folder 0 # map (probe rt (path_dirname rt folder)) [0..<n]
   = map (probe rt folder) [0..<Suc n]"
proof -
  have "map (probe rt (path_dirname rt folder)) [0..<n] = map (probe rt folder) (map Suc [0..<n])"
    by (simp add: probe_parent comp_def)
  also have "map Suc [0..<n] = [1..<Suc n]" by (simp add: map_Suc_upt)
  finally show ?thesis by (simp add: upt_conv_Cons del: upt_Suc)
qed

lemma find_rush_json_ok: "search_ok rt i folder (find_rush_json rt i folder)"
proof (induction rt i folder rule: find_rush_json.induct)
  case (1 rt i folder)
  let ?f = "path_join rt folder ''rush.json''"
  let ?parent = "path_dirname rt folder"
  show ?case
  proof (cases "i < 10")
    case False
    then have "find_rush_json rt i folder = (None, [])"
      by (subst find_rush_json.simps) simp
    with False show ?thesis by (simp add: search_ok_def)
  next
    case i: True
    show ?thesis
    proof (cases "fs_existsSync rt ?f")
      case True
      with i have "find_rush_json rt i folder = (Some (i, ?f), [?f])"
        by (subst find_rush_json.simps) (simp add: Let_def)
      with i True show ?thesis
        by (simp add: search_ok_def, intro exI [of _ 1]) simp
    next
      case nf: False
      show ?thesis
      proof (cases "?parent = folder")
        case True
        with i nf have "find_rush_json rt i folder = (None, [?f])"
          by (subst find_rush_json.simps) (simp add: Let_def)
        with i nf True show ?thesis
          by (simp add: search_ok_def, intro exI [of _ 1]) (simp add: at_root_def)
      next
        case False
        from "1.IH" [OF i refl nf refl False]
        have "search_ok rt (i + 1) ?parent (find_rush_json rt (i + 1) ?parent)" .
        then obtain n where n: "n \<le> 10 - (i + 1)"
          and pr: "snd (find_rush_json rt (i + 1) ?parent) = map (probe rt ?parent) [0..<n]"
          and c: "(case fst (find_rush_json rt (i + 1) ?parent) of
           Some (j, f) \<Rightarrow> j = (i + 1) + n - 1 \<and> 0 < n \<and> f = probe rt ?parent (n - 1)
                          \<and> fs_existsSync rt f
                          \<and> (\<forall>k<n - 1. \<not> fs_existsSync rt (probe rt ?parent k))
         | None \<Rightarrow> (\<forall>k<n. \<not> fs_existsSync rt (probe rt ?parent k))
                   \<and> (n = 10 - (i + 1) \<or> (0 < n \<and> at_root rt ((path_dirname rt ^^ (n - 1)) ?parent))))"
          unfolding search_ok_def by blast
        have eq: "find_rush_json rt i folder =
            (fst (find_rush_json rt (i + 1) ?parent),
             ?f # snd (find_rush_json rt (i + 1) ?parent))"
          using i nf False
          by (subst find_rush_json.simps) (simp add: Let_def case_prod_beta)
        have below: "\<not> fs_existsSync rt (probe rt folder k)"
          if "\<forall>k<m. \<not> fs_existsSync rt (probe rt ?parent k)" and "k < Suc m" for k m
          using that nf by (cases k) (simp_all add: probe_parent)
        have n1: "Suc n \<le> 10 - i" using n i by simp
        have sn: "snd (find_rush_json rt i folder) = map (probe rt folder) [0..<Suc n]"
          unfolding eq snd_conv pr using map_probe_Suc [of rt folder n] by simp
        show ?thesis
        proof (cases "fst (find_rush_json rt (i + 1) ?parent)")
          case None
          with c have a: "\<forall>k<n. \<not> fs_existsSync rt (probe rt ?parent k)"
            and b: "n = 10 - (i + 1) \<or> (0 < n \<and> at_root rt ((path_dirname rt ^^ (n - 1)) ?parent))"
            by simp_all
          have b': "Suc n = 10 - i \<or> (0 < Suc n \<and> at_root rt ((path_dirname rt ^^ (Suc n - 1)) folder))"
          proof (cases "n = 10 - (i + 1)")
            case True
            with i have "Suc n = 10 - i" by arith
            then show ?thesis by blast
          next
            case False
            with b have "0 < n" and "at_root rt ((path_dirname rt ^^ (n - 1)) ?parent)" by simp_all
            then have "at_root rt ((path_dirname rt ^^ n) folder)"
              by (cases n) (simp_all add: funpow_swap1)
            then show ?thesis by simp
          qed
          have "\<forall>k<Suc n. \<not> fs_existsSync rt (probe rt folder k)"
            using below [OF a] by blast
          with None n1 sn b' show ?thesis
            unfolding search_ok_def eq by (intro exI [of _ "Suc n"]) simp
        next
          case (Some jf)
          obtain j f where jf: "jf = (j, f)" by (cases jf)
          with Some c have a: "j = (i + 1) + n - 1" "0 < n" "f = probe rt ?parent (n - 1)"
            "fs_existsSync rt f" "\<forall>k<n - 1. \<not> fs_existsSync rt (probe rt ?parent k)"
            by auto
          have f': "f = probe rt folder (Suc n - 1)"
            using a(2,3) by (cases n) (simp_all add: probe_parent)
          have "\<forall>k<Suc (n - 1). \<not> fs_existsSync rt (probe rt folder k)"
            using below [OF a(5)] by blast
          then have "\<forall>k<Suc n - 1. \<not> fs_existsSync rt (probe rt folder k)"
            using a(2) by simp
          with Some jf n1 sn a f' show ?thesis
            unfolding search_ok_def eq by (intro exI [of _ "Suc n"]) simp
        qed
      qed
    qed
  qed
qed


lemma no_root_before_last:
  "Suc k < length (snd (find_rush_json rt i folder)) \<Longrightarrow>
   \<not> at_root rt ((path_dirname rt ^^ k) folder)"
proof (induction rt i folder arbitrary: k rule: find_rush_json.induct)
  case (1 rt i folder)
  let ?f = "path_join rt folder ''rush.json''"
  let ?parent = "path_dirname rt folder"
  show ?case
  proof (cases "i < 10 \<and> \<not> fs_existsSync rt ?f \<and> ?parent \<noteq> folder")
    case False
    then have "length (snd (find_rush_json rt i folder)) \<le> 1"
      by (subst find_rush_json.simps) (auto simp: Let_def)
    with "1.prems" show ?thesis by simp
  next
    case True
    then have i: "i < 10" and nf: "\<not> fs_existsSync rt ?f" and np: "?parent \<noteq> folder"
      by simp_all
    have eq: "snd (find_rush_json rt i folder) = ?f # snd (find_rush_json rt (i + 1) ?parent)"
      using i nf np by (subst find_rush_json.simps) (simp add: Let_def case_prod_beta)
    show ?thesis
    proof (cases k)
      case 0
      with np show ?thesis by (simp add: at_root_def)
    next
      case (Suc k')
      with "1.prems" have "Suc k' < length (snd (find_rush_json rt (i + 1) ?parent))"
        unfolding eq by simp
      from "1.IH" [OF i refl nf refl np this] Suc show ?thesis
        by (simp add: funpow_swap1)
    qed
  qed
qed

lemma find_rush_json_not_found:
  assumes "\<forall>k<10. \<not> fs_existsSync rt (probe rt folder k)"
  shows "fst (find_rush_json rt 0 folder) = None"
proof (cases "fst (find_rush_json rt 0 folder)")
  case None
  then show ?thesis .
next
  case (Some jf)
  obtain j f where "jf = (j, f)" by (cases jf)
  with Some find_rush_json_ok [of rt 0 folder] obtain n where
    "n \<le> 10" "0 < n" "f = probe rt folder (n - 1)" "fs_existsSync rt f"
    unfolding search_ok_def by auto
  with assms show ?thesis by (metis diff_less less_le_trans zero_less_one)
qed

lemma loadFromDefaultLocation_None:
  "fst (find_rush_json rt 0 (process_cwd rt)) = None \<Longrightarrow>
   loadFromDefaultLocation rt = (Inl UnableToFindRushJson, [])"
  by (cases "find_rush_json rt 0 (process_cwd rt)") (simp add: loadFromDefaultLocation_def)

lemma loadFromDefaultLocation_Some:
  "fst (find_rush_json rt 0 (process_cwd rt)) = Some (j, f) \<Longrightarrow>
   fst (loadFromDefaultLocation rt) = fst (loadFromConfigFile rt f)"
  by (cases "find_rush_json rt 0 (process_cwd rt)")
     (simp add: loadFromDefaultLocation_def case_prod_beta)

lemma search_example:
  "find_rush_json (example_runtime (example_config scenario_manifest)) 0 ''/repo/apps/tool''
   = (Some (2, ''/repo/rush.json''),
      [''/repo/apps/tool/rush.json'', ''/repo/apps/rush.json'', ''/repo/rush.json''])"
  by code_simp

lemma search_example_empty:
  "find_rush_json (empty_disk (example_runtime (example_config scenario_manifest))) 0 ''/repo/apps/tool''
   = (None,
      [''/repo/apps/tool/rush.json'', ''/repo/apps/rush.json'', ''/repo/rush.json'', ''/rush.json''])"
  by code_simp

section \<open>Properties of the loader\<close>

lemma constructor_settings_error:
  "constructor_settings rt rushConfigJson filename = Inl e \<Longrightarrow> \<not> is_version_error e"
  unfolding constructor_settings_def Let_def
  by (auto split: if_splits option.splits)

lemma build_projects_error:
  assumes "build_projects ps = Inl e"
  shows "\<not> is_version_error e"
proof (cases "distinct (map packageName ps)")
  case False
  from build_projects_duplicate [OF False] assms show ?thesis by auto
next
  case d: True
  show ?thesis
  proof (cases "resolves ps")
    case False
    from build_projects_unresolved [OF d False] assms show ?thesis by auto
  next
    case True
    from build_projects_accepted [OF d True] assms show ?thesis by auto
  qed
qed

lemma RushConfig_constructor_error:
  "RushConfig_constructor rt rushConfigJson filename = Inl e \<Longrightarrow> \<not> is_version_error e"
  unfolding RushConfig_constructor_def
  by (auto split: sum.splits dest: constructor_settings_error build_projects_error)

lemma validate_and_construct_error:
  "fst (validate_and_construct rt rushConfigJson filename) = Inl e \<Longrightarrow> \<not> is_version_error e"
  unfolding validate_and_construct_def Let_def
  by (auto split: option.splits dest: RushConfig_constructor_error)

lemma validate_and_construct_calls:
  "loadRushSchema rt = None \<Longrightarrow>
   Call_validate \<in> set (snd (validate_and_construct rt rushConfigJson filename))"
  unfolding validate_and_construct_def Let_def
  by (auto split: option.splits)

lemma load_example:
  "\<not> isl (fst (loadFromConfigFile (example_runtime (example_config scenario_manifest)) ''/repo/rush.json''))
   \<and> snd (loadFromConfigFile (example_runtime (example_config scenario_manifest)) ''/repo/rush.json'')
     = [Call_loadJsonFile ''/repo/rush.json'', Call_loadRushSchema, Call_validate]"
  by code_simp

section \<open>Claims\<close>

text \<open>
  C5. The temp names that \<^verbatim>\<open>_generateTempNamesForProjects\<close> assigns are pairwise
  distinct, one for each entry of the manifest, and the projects of a graph that the
  constructor accepts carry exactly these names: no two projects of a graph share a temp
  name.
\<close>

theorem temp_names_pairwise_distinct:
  "distinct (map snd (generateTempNamesForProjects ps)) \<and>
   map fst (generateTempNamesForProjects ps) = ps \<and>
   (\<forall>projs byName. build_projects ps = Inr (projs, byName) \<longrightarrow>
      map tempProjectName projs = map snd (generateTempNamesForProjects ps) \<and>
      distinct (map tempProjectName projs))"
proof (intro conjI allI impI)
  show "distinct (map snd (generateTempNamesForProjects ps))"
    by (rule generateTempNames_distinct)
  show "map fst (generateTempNamesForProjects ps) = ps"
    by (rule generateTempNames_fst)
next
  fix projs byName
  assume b: "build_projects ps = Inr (projs, byName)"
  have len: "length (generateTempNamesForProjects ps) = length ps"
    using arg_cong [OF generateTempNames_fst [of ps], of length] by simp
  show eq: "map tempProjectName projs = map snd (generateTempNamesForProjects ps)"
    by (rule nth_equalityI)
       (simp_all add: built_projects_fields(1,3) [OF b] len)
  show "distinct (map tempProjectName projs)"
    unfolding eq by (rule generateTempNames_distinct)
qed

text \<open>The three scoped packages \<open>lib\<close> are accepted and get three names.\<close>

theorem temp_names_pairwise_distinct_witness:
  "\<not> isl (build_projects lib_manifest) \<and>
   map tempProjectName (built lib_manifest) = map snd (generateTempNamesForProjects lib_manifest) \<and>
   distinct (map tempProjectName (built lib_manifest))"
proof -
  have ok: "\<not> isl (build_projects lib_manifest)" by code_simp
  then obtain projs byName where b: "build_projects lib_manifest = Inr (projs, byName)"
    by (cases "build_projects lib_manifest") auto
  have "built lib_manifest = projs" by (simp add: built_def b)
  with ok temp_names_pairwise_distinct [of lib_manifest] b show ?thesis by simp
qed

text \<open>
  C4. After the construction of the graph, the project at each position has the name of the
  manifest entry at that position; if the entry \<open>A\<close> declares a dependency on the package
  name of the entry \<open>B\<close>, the package name of \<open>A\<close> is in the
  \<^verbatim>\<open>downstreamDependencyProjects\<close> of the project of \<open>B\<close>; and a project whose name no
  entry declares as a dependency has an empty \<^verbatim>\<open>downstreamDependencyProjects\<close>.
\<close>

theorem downstream_of_declared_dependencies:
  assumes "build_projects ps = Inr (projs, byName)"
  shows "length projs = length ps \<and>
    (\<forall>b<length ps. packageName (projs ! b) = packageName (ps ! b)) \<and>
    (\<forall>a<length ps. \<forall>b<length ps. \<forall>ds.
        dependencies (ps ! a) = Some ds \<and> packageName (ps ! b) \<in> set ds \<longrightarrow>
        packageName (ps ! a) \<in> set (downstreamDependencyProjects (projs ! b))) \<and>
    (\<forall>b<length ps.
        (\<forall>a<length ps. \<forall>ds. dependencies (ps ! a) = Some ds \<longrightarrow> packageName (ps ! b) \<notin> set ds) \<longrightarrow>
        downstreamDependencyProjects (projs ! b) = [])"
proof (intro conjI allI impI)
  show "length projs = length ps" by (rule built_projects_fields(1) [OF assms])
next
  fix b assume "b < length ps"
  then show "packageName (projs ! b) = packageName (ps ! b)"
    by (rule built_projects_fields(2) [OF assms])
next
  fix a b ds
  assume a: "a < length ps" and b: "b < length ps"
    and d: "dependencies (ps ! a) = Some ds \<and> packageName (ps ! b) \<in> set ds"
  then have "packageName (ps ! b) \<in> set (declared (ps ! a))" by (simp add: declared_def)
  with a show "packageName (ps ! a) \<in> set (downstreamDependencyProjects (projs ! b))"
    unfolding built_downstream_set [OF assms b] by blast
next
  fix b
  assume b: "b < length ps"
    and none: "\<forall>a<length ps. \<forall>ds. dependencies (ps ! a) = Some ds \<longrightarrow> packageName (ps ! b) \<notin> set ds"
  have "packageName (ps ! b) \<notin> set (declared (ps ! a))" if "a < length ps" for a
    using none that by (cases "dependencies (ps ! a)") (simp_all add: declared_def)
  then have "set (downstreamDependencyProjects (projs ! b)) = {}"
    unfolding built_downstream_set [OF assms b] by blast
  then show "downstreamDependencyProjects (projs ! b) = []" by simp
qed

text \<open>The scenario of the specification: \<open>core\<close> has \<open>utils\<close> and \<open>app\<close> downstream, \<open>app\<close> has nothing.\<close>

theorem downstream_of_declared_dependencies_witness:
  "\<not> isl (build_projects scenario_manifest) \<and>
   ''app'' \<in> set (downstreamDependencyProjects (built scenario_manifest ! 0)) \<and>
   ''utils'' \<in> set (downstreamDependencyProjects (built scenario_manifest ! 0)) \<and>
   downstreamDependencyProjects (built scenario_manifest ! 2) = []"
proof -
  have ok: "\<not> isl (build_projects scenario_manifest)" by code_simp
  then obtain projs byName where b: "build_projects scenario_manifest = Inr (projs, byName)"
    by (cases "build_projects scenario_manifest") auto
  have P: "built scenario_manifest = projs" by (simp add: built_def b)
  note t = downstream_of_declared_dependencies [OF b]
  have len: "length scenario_manifest = 3" by (simp add: scenario_manifest_def)
  from t have dep: "\<And>a b ds. a < 3 \<Longrightarrow> b < 3 \<Longrightarrow>
       dependencies (scenario_manifest ! a) = Some ds \<and> packageName (scenario_manifest ! b) \<in> set ds \<Longrightarrow>
        packageName (scenario_manifest ! a) \<in> set (downstreamDependencyProjects (projs ! b))"
    unfolding len by blast
  from t have none: "\<And>b. b < 3 \<Longrightarrow>
        (\<forall>a<3. \<forall>ds. dependencies (scenario_manifest ! a) = Some ds \<longrightarrow>
            packageName (scenario_manifest ! b) \<notin> set ds) \<Longrightarrow>
        downstreamDependencyProjects (projs ! b) = []"
    unfolding len by blast
  have "''app'' \<in> set (downstreamDependencyProjects (projs ! 0))"
    using dep [of 2 0 "[''core'', ''utils'']"]
    by (simp add: scenario_manifest_def project_entry_def)
  moreover have "''utils'' \<in> set (downstreamDependencyProjects (projs ! 0))"
    using dep [of 1 0 "[''core'']"]
    by (simp add: scenario_manifest_def project_entry_def)
  moreover have "downstreamDependencyProjects (projs ! 2) = []"
  proof (rule none)
    show "(2::nat) < 3" by simp
    show "\<forall>a<3. \<forall>ds. dependencies (scenario_manifest ! a) = Some ds \<longrightarrow>
            packageName (scenario_manifest ! 2) \<notin> set ds"
      by (auto simp: scenario_manifest_def project_entry_def less_Suc_eq numeral_3_eq_3)
  qed
  ultimately show ?thesis using ok P by simp
qed

text \<open>
  C1. The claim is that the assignment of temp names does not depend on the order in which
  the entries are declared. The comparator compares the name of \<open>a\<close> with itself, so the
  sort keeps the declared order, and the first of two entries with the same unscoped name
  gets the plain name: here are the assignments for two entries in either order.
\<close>

theorem temp_names_depend_on_declaration_order:
  "generateTempNamesForProjects scoped_manifest =
     [(project_entry ''@a/foo'' [] None, ''rush-foo''),
      (project_entry ''@b/foo'' [] None, ''rush-foo-1'')] \<and>
   generateTempNamesForProjects scoped_manifest_swapped =
     [(project_entry ''@b/foo'' [] None, ''rush-foo''),
      (project_entry ''@a/foo'' [] None, ''rush-foo-1'')]"
  by code_simp

text \<open>
  C2. The claim is that the first project whose base name is taken gets the suffix 2. The
  counter starts at 0 and is incremented before the first suffixed candidate is built: the
  first colliding project gets the suffix 1, the next one the suffix 2.
\<close>

theorem first_collision_gets_suffix_1:
  "map snd (generateTempNamesForProjects lib_manifest) = [''rush-lib'', ''rush-lib-1'', ''rush-lib-2'']"
  by code_simp

text \<open>
  C6. When a package name appears in more than one entry of the manifest, the construction
  of the graph throws the error that names a package name appearing more than once, and
  the constructor returns no object, whatever the runtime; when the checks that precede
  the project loops pass, the constructor throws that very error.
\<close>

theorem duplicate_packageName_rejected:
  assumes "\<not> distinct (map packageName (projects rushConfigJson))"
  shows "\<exists>n. 2 \<le> count_list (map packageName (projects rushConfigJson)) n \<and>
           build_projects (projects rushConfigJson) = Inl (ProjectSpecifiedMoreThanOnce n) \<and>
           (\<forall>rt filename.
              isl (RushConfig_constructor rt rushConfigJson filename) \<and>
              (\<not> isl (constructor_settings rt rushConfigJson filename) \<longrightarrow>
               RushConfig_constructor rt rushConfigJson filename
                 = Inl (ProjectSpecifiedMoreThanOnce n)))"
proof -
  from build_projects_duplicate [OF assms] obtain n where
    n: "build_projects (projects rushConfigJson) = Inl (ProjectSpecifiedMoreThanOnce n)"
    and c: "2 \<le> count_list (map packageName (projects rushConfigJson)) n"
    by blast
  from constructor_of_failed_build [OF n] c n show ?thesis by blast
qed

text \<open>The manifest \<open>a\<close>, \<open>b\<close>, \<open>a\<close> is refused with the name \<open>a\<close>.\<close>

theorem duplicate_packageName_rejected_witness:
  "\<not> distinct (map packageName (projects (example_config duplicate_manifest))) \<and>
   build_projects (projects (example_config duplicate_manifest))
     = Inl (ProjectSpecifiedMoreThanOnce ''a'') \<and>
   RushConfig_constructor (example_runtime (example_config duplicate_manifest))
     (example_config duplicate_manifest) ''/repo/rush.json''
     = Inl (ProjectSpecifiedMoreThanOnce ''a'')"
proof -
  let ?cfg = "example_config duplicate_manifest"
  have nd: "\<not> distinct (map packageName (projects ?cfg))"
    by (simp add: example_config_def duplicate_manifest_def project_entry_def)
  have settings: "\<not> isl (constructor_settings (example_runtime ?cfg) ?cfg ''/repo/rush.json'')"
    by code_simp
  from duplicate_packageName_rejected [OF nd] obtain n where
    c: "2 \<le> count_list (map packageName (projects ?cfg)) n"
    and b: "build_projects (projects ?cfg) = Inl (ProjectSpecifiedMoreThanOnce n)"
    and r: "\<not> isl (constructor_settings (example_runtime ?cfg) ?cfg ''/repo/rush.json'') \<longrightarrow>
            RushConfig_constructor (example_runtime ?cfg) ?cfg ''/repo/rush.json''
              = Inl (ProjectSpecifiedMoreThanOnce n)"
    by blast
  from c have "n = ''a''"
    by (simp add: example_config_def duplicate_manifest_def project_entry_def split: if_splits)
  with nd b r settings show ?thesis by simp
qed

text \<open>
  C7, as stated: a manifest with an unresolved \<^verbatim>\<open>cyclicDependencyProjects\<close> entry is
  refused with an error that identifies the unresolved name. It fails on a manifest that
  also repeats a package name: the first loop throws before the entries are looked at.
\<close>

theorem unresolved_name_hidden_by_duplicate_counterexample:
  "''ghost'' \<in> set (cyclicDependencyProjects (duplicate_ghost_manifest ! 0)) \<and>
   ''ghost'' \<notin> set (map packageName duplicate_ghost_manifest) \<and>
   build_projects duplicate_ghost_manifest = Inl (ProjectSpecifiedMoreThanOnce ''a'') \<and>
   RushConfig_constructor (example_runtime (example_config duplicate_ghost_manifest))
     (example_config duplicate_ghost_manifest) ''/repo/rush.json''
     = Inl (ProjectSpecifiedMoreThanOnce ''a'')"
proof -
  let ?cfg = "example_config duplicate_ghost_manifest"
  have "''ghost'' \<in> set (cyclicDependencyProjects (duplicate_ghost_manifest ! 0))"
    and "''ghost'' \<notin> set (map packageName duplicate_ghost_manifest)"
    by (simp_all add: duplicate_ghost_manifest_def project_entry_def)
  moreover have "isl (build_projects duplicate_ghost_manifest)"
    and "projl (build_projects duplicate_ghost_manifest) = ProjectSpecifiedMoreThanOnce ''a''"
    by code_simp+
  then have "build_projects duplicate_ghost_manifest = Inl (ProjectSpecifiedMoreThanOnce ''a'')"
    by (rule Inl_from_projl)
  moreover have "isl (RushConfig_constructor (example_runtime ?cfg) ?cfg ''/repo/rush.json'')"
    and "projl (RushConfig_constructor (example_runtime ?cfg) ?cfg ''/repo/rush.json'')
           = ProjectSpecifiedMoreThanOnce ''a''"
    by code_simp+
  then have "RushConfig_constructor (example_runtime ?cfg) ?cfg ''/repo/rush.json''
     = Inl (ProjectSpecifiedMoreThanOnce ''a'')"
    by (rule Inl_from_projl)
  ultimately show ?thesis by blast
qed

text \<open>
  C7, amended. When some \<^verbatim>\<open>cyclicDependencyProjects\<close> entry of the manifest is not the
  package name of a project of the manifest, no graph is produced, whatever the runtime.
  When the package names are pairwise distinct, the error names an unresolved entry and
  the project that lists it; when a package name is repeated, the error is the one for
  the repeated name.
\<close>

theorem unresolved_cyclicDependencyProject_rejected:
  assumes "p \<in> set (projects rushConfigJson)"
    and "c \<in> set (cyclicDependencyProjects p)"
    and "c \<notin> set (map packageName (projects rushConfigJson))"
  shows "isl (build_projects (projects rushConfigJson)) \<and>
    (\<forall>rt filename. isl (RushConfig_constructor rt rushConfigJson filename)) \<and>
    (distinct (map packageName (projects rushConfigJson)) \<longrightarrow>
       (\<exists>c' i. i < length (projects rushConfigJson) \<and>
          c' \<in> set (cyclicDependencyProjects (projects rushConfigJson ! i)) \<and>
          c' \<notin> set (map packageName (projects rushConfigJson)) \<and>
          build_projects (projects rushConfigJson)
            = Inl (CyclicDependencyProjectDoesNotExist c'
                     (packageName (projects rushConfigJson ! i))) \<and>
          (\<forall>rt filename. \<not> isl (constructor_settings rt rushConfigJson filename) \<longrightarrow>
             RushConfig_constructor rt rushConfigJson filename
               = Inl (CyclicDependencyProjectDoesNotExist c'
                        (packageName (projects rushConfigJson ! i)))))) \<and>
    (\<not> distinct (map packageName (projects rushConfigJson)) \<longrightarrow>
       (\<exists>n. 2 \<le> count_list (map packageName (projects rushConfigJson)) n \<and>
          build_projects (projects rushConfigJson) = Inl (ProjectSpecifiedMoreThanOnce n)))"
proof -
  let ?ps = "projects rushConfigJson"
  from assms have nr: "\<not> resolves ?ps" unfolding resolves_def by blast
  have failed: "\<exists>e. build_projects ?ps = Inl e"
  proof (cases "distinct (map packageName ?ps)")
    case True
    from build_projects_unresolved [OF True nr] show ?thesis by blast
  next
    case False
    from build_projects_duplicate [OF False] show ?thesis by blast
  qed
  then obtain e where e: "build_projects ?ps = Inl e" by blast
  have 1: "isl (build_projects ?ps)" using e by simp
  have 2: "\<forall>rt filename. isl (RushConfig_constructor rt rushConfigJson filename)"
    using constructor_of_failed_build(1) [OF e] by blast
  have 3: "\<exists>c' i. i < length ?ps \<and>
          c' \<in> set (cyclicDependencyProjects (?ps ! i)) \<and>
          c' \<notin> set (map packageName ?ps) \<and>
          build_projects ?ps
            = Inl (CyclicDependencyProjectDoesNotExist c' (packageName (?ps ! i))) \<and>
          (\<forall>rt filename. \<not> isl (constructor_settings rt rushConfigJson filename) \<longrightarrow>
             RushConfig_constructor rt rushConfigJson filename
               = Inl (CyclicDependencyProjectDoesNotExist c' (packageName (?ps ! i))))"
    if d: "distinct (map packageName ?ps)"
  proof -
    from build_projects_unresolved [OF d nr] obtain c' i where
      f: "i < length ?ps" "c' \<in> set (cyclicDependencyProjects (?ps ! i))"
         "c' \<notin> set (map packageName ?ps)"
         "build_projects ?ps
            = Inl (CyclicDependencyProjectDoesNotExist c' (packageName (?ps ! i)))"
      by blast
    from f constructor_of_failed_build(2) [OF f(4)] show ?thesis by blast
  qed
  have 4: "\<exists>n. 2 \<le> count_list (map packageName ?ps) n \<and>
          build_projects ?ps = Inl (ProjectSpecifiedMoreThanOnce n)"
    if "\<not> distinct (map packageName ?ps)"
    using build_projects_duplicate [OF that] by blast
  from 1 2 3 4 show ?thesis by blast
qed

text \<open>The entry \<open>ghost\<close> of project \<open>b\<close> names no project.\<close>

theorem unresolved_cyclicDependencyProject_rejected_witness:
  "project_entry ''b'' [''ghost''] None \<in> set (projects (example_config ghost_manifest)) \<and>
   ''ghost'' \<in> set (cyclicDependencyProjects (project_entry ''b'' [''ghost''] None)) \<and>
   ''ghost'' \<notin> set (map packageName (projects (example_config ghost_manifest))) \<and>
   distinct (map packageName (projects (example_config ghost_manifest))) \<and>
   isl (build_projects (projects (example_config ghost_manifest))) \<and>
   isl (RushConfig_constructor (example_runtime (example_config ghost_manifest))
          (example_config ghost_manifest) ''/repo/rush.json'')"
proof -
  let ?cfg = "example_config ghost_manifest"
  have h1: "project_entry ''b'' [''ghost''] None \<in> set (projects ?cfg)"
    by (simp add: example_config_def ghost_manifest_def)
  have h2: "''ghost'' \<in> set (cyclicDependencyProjects (project_entry ''b'' [''ghost''] None))"
    by (simp add: project_entry_def)
  have h3: "''ghost'' \<notin> set (map packageName (projects ?cfg))"
    by (simp add: example_config_def ghost_manifest_def project_entry_def)
  have h4: "distinct (map packageName (projects ?cfg))"
    by (simp add: example_config_def ghost_manifest_def project_entry_def)
  from unresolved_cyclicDependencyProject_rejected [OF h1 h2 h3] h1 h2 h3 h4
  show ?thesis by blast
qed

text \<open>
  C3, as stated: a manifest whose dependency relation, restricted to the edges that no
  whitelist covers, has a cycle is refused. It fails: \<open>a\<close> and \<open>b\<close> depend on each other,
  no whitelist covers the two edges, and the graph is constructed.
\<close>

theorem unlisted_cycle_accepted_counterexample:
  "unlisted_cycle cyclic_manifest [''a'', ''b''] \<and>
   \<not> isl (build_projects cyclic_manifest) \<and>
   \<not> isl (RushConfig_constructor (example_runtime (example_config cyclic_manifest))
            (example_config cyclic_manifest) ''/repo/rush.json'')"
  by code_simp

text \<open>
  C3, amended. The construction of the graph has no cycle check: a manifest is accepted
  exactly when its package names are pairwise distinct and every
  \<^verbatim>\<open>cyclicDependencyProjects\<close> entry is the name of one of its projects, whatever the
  declared dependencies are. So a cycle that the whitelist entries cover is accepted, and
  so is one that they do not cover.
\<close>

theorem graph_accepted_without_cycle_check:
  "(\<not> isl (build_projects (projects rushConfigJson)) \<longleftrightarrow>
      distinct (map packageName (projects rushConfigJson)) \<and> resolves (projects rushConfigJson)) \<and>
   (\<forall>rt filename. \<not> isl (constructor_settings rt rushConfigJson filename) \<longrightarrow>
      (\<not> isl (RushConfig_constructor rt rushConfigJson filename) \<longleftrightarrow>
         distinct (map packageName (projects rushConfigJson)) \<and>
         resolves (projects rushConfigJson)))"
proof -
  let ?ps = "projects rushConfigJson"
  have b: "\<not> isl (build_projects ?ps) \<longleftrightarrow> distinct (map packageName ?ps) \<and> resolves ?ps"
  proof (cases "distinct (map packageName ?ps)")
    case False
    from build_projects_duplicate [OF False] False show ?thesis by auto
  next
    case d: True
    show ?thesis
    proof (cases "resolves ?ps")
      case False
      from build_projects_unresolved [OF d False] d False show ?thesis by auto
    next
      case True
      from build_projects_accepted [OF d True] d True show ?thesis by auto
    qed
  qed
  have "\<not> isl (RushConfig_constructor rt rushConfigJson filename) \<longleftrightarrow> \<not> isl (build_projects ?ps)"
    if "\<not> isl (constructor_settings rt rushConfigJson filename)" for rt filename
    using that by (auto simp: RushConfig_constructor_def split: sum.splits)
  with b show ?thesis by blast
qed

text \<open>The cycle of \<open>a\<close> and \<open>b\<close> with both whitelist entries is accepted.\<close>

theorem graph_accepted_without_cycle_check_witness:
  "distinct (map packageName (projects (example_config whitelisted_cyclic_manifest))) \<and>
   \<not> isl (build_projects (projects (example_config whitelisted_cyclic_manifest))) \<and>
   \<not> isl (constructor_settings (example_runtime (example_config whitelisted_cyclic_manifest))
            (example_config whitelisted_cyclic_manifest) ''/repo/rush.json'') \<and>
   \<not> isl (RushConfig_constructor (example_runtime (example_config whitelisted_cyclic_manifest))
            (example_config whitelisted_cyclic_manifest) ''/repo/rush.json'')"
proof -
  let ?cfg = "example_config whitelisted_cyclic_manifest"
  have d: "distinct (map packageName (projects ?cfg))"
    by (simp add: example_config_def whitelisted_cyclic_manifest_def project_entry_def)
  have r: "resolves (projects ?cfg)"
    by (simp add: resolves_def example_config_def whitelisted_cyclic_manifest_def project_entry_def)
  have s: "\<not> isl (constructor_settings (example_runtime ?cfg) ?cfg ''/repo/rush.json'')"
    by code_simp
  from graph_accepted_without_cycle_check [of ?cfg] d r s show ?thesis by blast
qed

text \<open>
  C9. \<^verbatim>\<open>loadFromDefaultLocation\<close> tries the current working directory and then its
  ancestors, one level at a time, at most 10 folders in all; it stops at the first folder
  that holds \<^verbatim>\<open>rush.json\<close> and loads that file, and it stops at a folder that is its own
  parent: no folder tried before the last one is its own parent, so nothing is tried
  above the root. When none of the folders tried holds the file, and in particular when none of
  the first 10 levels does, it throws the error that the configuration file cannot be
  found. The search always ends: the loop is a total function.
\<close>

theorem rush_json_search_bounded:
  "(\<exists>n. n \<le> 10 \<and>
      snd (find_rush_json rt 0 (process_cwd rt)) = map (probe rt (process_cwd rt)) [0..<n] \<and>
      (\<forall>k. k + 1 < n \<longrightarrow> \<not> at_root rt ((path_dirname rt ^^ k) (process_cwd rt))) \<and>
      (case fst (find_rush_json rt 0 (process_cwd rt)) of
         Some (j, f) \<Rightarrow>
           n = j + 1 \<and> f = probe rt (process_cwd rt) j \<and> fs_existsSync rt f \<and>
           (\<forall>k<j. \<not> fs_existsSync rt (probe rt (process_cwd rt) k)) \<and>
           fst (loadFromDefaultLocation rt) = fst (loadFromConfigFile rt f)
       | None \<Rightarrow>
           (\<forall>k<n. \<not> fs_existsSync rt (probe rt (process_cwd rt) k)) \<and>
           (n = 10 \<or> (0 < n \<and> at_root rt ((path_dirname rt ^^ (n - 1)) (process_cwd rt)))) \<and>
           loadFromDefaultLocation rt = (Inl UnableToFindRushJson, []))) \<and>
   ((\<forall>k<10. \<not> fs_existsSync rt (probe rt (process_cwd rt) k)) \<longrightarrow>
      loadFromDefaultLocation rt = (Inl UnableToFindRushJson, []))"
proof
  let ?cwd = "process_cwd rt"
  from find_rush_json_ok [of rt 0 ?cwd] obtain n where n: "n \<le> 10"
    and pr: "snd (find_rush_json rt 0 ?cwd) = map (probe rt ?cwd) [0..<n]"
    and c: "(case fst (find_rush_json rt 0 ?cwd) of
           Some (j, f) \<Rightarrow> j = 0 + n - 1 \<and> 0 < n \<and> f = probe rt ?cwd (n - 1)
                          \<and> fs_existsSync rt f
                          \<and> (\<forall>k<n - 1. \<not> fs_existsSync rt (probe rt ?cwd k))
         | None \<Rightarrow> (\<forall>k<n. \<not> fs_existsSync rt (probe rt ?cwd k))
                   \<and> (n = 10 - 0 \<or> (0 < n \<and> at_root rt ((path_dirname rt ^^ (n - 1)) ?cwd))))"
    unfolding search_ok_def by auto
  have nr: "\<forall>k. k + 1 < n \<longrightarrow> \<not> at_root rt ((path_dirname rt ^^ k) ?cwd)"
  proof (intro allI impI)
    fix k assume "k + 1 < n"
    then have "Suc k < length (snd (find_rush_json rt 0 ?cwd))" unfolding pr by simp
    then show "\<not> at_root rt ((path_dirname rt ^^ k) ?cwd)" by (rule no_root_before_last)
  qed
  show "\<exists>n. n \<le> 10 \<and>
      snd (find_rush_json rt 0 ?cwd) = map (probe rt ?cwd) [0..<n] \<and>
      (\<forall>k. k + 1 < n \<longrightarrow> \<not> at_root rt ((path_dirname rt ^^ k) ?cwd)) \<and>
      (case fst (find_rush_json rt 0 ?cwd) of
         Some (j, f) \<Rightarrow>
           n = j + 1 \<and> f = probe rt ?cwd j \<and> fs_existsSync rt f \<and>
           (\<forall>k<j. \<not> fs_existsSync rt (probe rt ?cwd k)) \<and>
           fst (loadFromDefaultLocation rt) = fst (loadFromConfigFile rt f)
       | None \<Rightarrow>
           (\<forall>k<n. \<not> fs_existsSync rt (probe rt ?cwd k)) \<and>
           (n = 10 \<or> (0 < n \<and> at_root rt ((path_dirname rt ^^ (n - 1)) ?cwd))) \<and>
           loadFromDefaultLocation rt = (Inl UnableToFindRushJson, []))"
  proof (cases "fst (find_rush_json rt 0 ?cwd)")
    case None
    with c n pr nr loadFromDefaultLocation_None [OF None] show ?thesis
      by (intro exI [of _ n]) simp
  next
    case (Some jf)
    obtain j f where jf: "jf = (j, f)" by (cases jf)
    from Some jf c have a: "j = n - 1" "0 < n" "f = probe rt ?cwd (n - 1)" "fs_existsSync rt f"
      "\<forall>k<n - 1. \<not> fs_existsSync rt (probe rt ?cwd k)" by auto
    from Some jf have "fst (find_rush_json rt 0 ?cwd) = Some (j, f)" by simp
    from loadFromDefaultLocation_Some [OF this] a n pr nr Some jf show ?thesis
      by (intro exI [of _ n]) simp
  qed
next
  show "(\<forall>k<10. \<not> fs_existsSync rt (probe rt (process_cwd rt) k)) \<longrightarrow>
      loadFromDefaultLocation rt = (Inl UnableToFindRushJson, [])"
    using find_rush_json_not_found [of rt "process_cwd rt"] loadFromDefaultLocation_None [of rt]
    by blast
qed

text \<open>
  On an empty disk the search from \<^verbatim>\<open>/repo/apps/tool\<close> tries four folders, the last
  one the root, and ends with the error.
\<close>

theorem rush_json_search_bounded_witness:
  "snd (find_rush_json (empty_disk (example_runtime (example_config scenario_manifest))) 0
          (process_cwd (empty_disk (example_runtime (example_config scenario_manifest)))))
     = [''/repo/apps/tool/rush.json'', ''/repo/apps/rush.json'', ''/repo/rush.json'',
        ''/rush.json''] \<and>
   loadFromDefaultLocation (empty_disk (example_runtime (example_config scenario_manifest)))
     = (Inl UnableToFindRushJson, [])"
proof -
  let ?rt = "empty_disk (example_runtime (example_config scenario_manifest))"
  let ?cwd = "process_cwd ?rt"
  have cwd: "?cwd = ''/repo/apps/tool''"
    by (simp add: empty_disk_def example_runtime_def)
  have dir: "path_dirname ?rt = posix_dirname" and join: "path_join ?rt = posix_join"
    by (simp_all add: empty_disk_def example_runtime_def)
  have parent: "posix_dirname ''/repo/apps/tool'' = ''/repo/apps''"
    "posix_dirname ''/repo/apps'' = ''/repo''"
    "posix_dirname ''/repo'' = ''/''"
    by (simp_all add: posix_dirname_def)
  have root: "posix_dirname ''/'' = ''/''" by (simp add: posix_dirname_def)
  from rush_json_search_bounded [of ?rt] obtain n where n: "n \<le> 10"
    and pr: "snd (find_rush_json ?rt 0 ?cwd) = map (probe ?rt ?cwd) [0..<n]"
    and nr: "\<forall>k. k + 1 < n \<longrightarrow> \<not> at_root ?rt ((path_dirname ?rt ^^ k) ?cwd)"
    and c: "(case fst (find_rush_json ?rt 0 ?cwd) of
         Some (j, f) \<Rightarrow>
           n = j + 1 \<and> f = probe ?rt ?cwd j \<and> fs_existsSync ?rt f \<and>
           (\<forall>k<j. \<not> fs_existsSync ?rt (probe ?rt ?cwd k)) \<and>
           fst (loadFromDefaultLocation ?rt) = fst (loadFromConfigFile ?rt f)
       | None \<Rightarrow>
           (\<forall>k<n. \<not> fs_existsSync ?rt (probe ?rt ?cwd k)) \<and>
           (n = 10 \<or> (0 < n \<and> at_root ?rt ((path_dirname ?rt ^^ (n - 1)) ?cwd))) \<and>
           loadFromDefaultLocation ?rt = (Inl UnableToFindRushJson, []))"
    by blast
  have none: "fst (find_rush_json ?rt 0 ?cwd) = None"
  proof (cases "fst (find_rush_json ?rt 0 ?cwd)")
    case None
    then show ?thesis .
  next
    case (Some jf)
    with c have "fs_existsSync ?rt (snd jf)" by (cases jf) simp
    then have False by (simp add: empty_disk_def)
    then show ?thesis ..
  qed
  with c have stop: "n = 10 \<or> (0 < n \<and> at_root ?rt ((path_dirname ?rt ^^ (n - 1)) ?cwd))"
    and err: "loadFromDefaultLocation ?rt = (Inl UnableToFindRushJson, [])"
    by simp_all
  have "at_root ?rt ((path_dirname ?rt ^^ 3) ?cwd)"
    unfolding dir cwd at_root_def by (simp add: eval_nat_numeral parent root)
  with nr have "\<not> 3 + 1 < n" by blast
  then have le: "n \<le> 4" by simp
  with stop have last: "0 < n" "at_root ?rt ((path_dirname ?rt ^^ (n - 1)) ?cwd)" by simp_all
  from le last(1) have "n = 1 \<or> n = 2 \<or> n = 3 \<or> n = 4" by arith
  with last(2) have n4: "n = 4"
    unfolding dir cwd at_root_def by (auto simp: eval_nat_numeral parent)
  have "map (probe ?rt ?cwd) [0..<4]
     = [''/repo/apps/tool/rush.json'', ''/repo/apps/rush.json'', ''/repo/rush.json'',
        ''/rush.json'']"
    unfolding probe_def dir join cwd
    by (simp add: eval_nat_numeral upt_conv_Cons parent posix_join_def del: upt_Suc)
  with pr n4 err show ?thesis by simp
qed

text \<open>
  C8. In \<^verbatim>\<open>loadFromConfigFile\<close> the check of the Rush version comes before the schema
  validation: when the loaded configuration declares a \<^verbatim>\<open>rushMinimumVersion\<close> that is a
  valid version (a non-empty string that \<^verbatim>\<open>semver.valid\<close> accepts) and the version of
  the tool is lower, loading fails with the version error, and the only call made is the
  loading of the configuration file: the schema is not loaded and the validator is not
  run.
\<close>

theorem version_check_precedes_schema_validation:
  assumes "loadJsonFile rt filename = Inr rushConfigJson"
    and "rushMinimumVersion rushConfigJson = Some v"
    and "v \<noteq> []" and "semver_valid rt v"
    and "semver_lt rt (rushVersion rt) v"
  shows "loadFromConfigFile rt filename
           = (Inl (RushVersionTooOld (rushVersion rt) v), [Call_loadJsonFile filename]) \<and>
         Call_validate \<notin> set (snd (loadFromConfigFile rt filename)) \<and>
         Call_loadRushSchema \<notin> set (snd (loadFromConfigFile rt filename))"
  using assms by (simp add: loadFromConfigFile_def check_rushMinimumVersion_def)

text \<open>The tool has version 1.0.0 and the configuration requires 2.0.0.\<close>

theorem version_check_precedes_schema_validation_witness:
  "loadJsonFile (example_runtime (requiring (Some ''2.0.0'') (example_config scenario_manifest)))
     ''/repo/rush.json'' = Inr (requiring (Some ''2.0.0'') (example_config scenario_manifest)) \<and>
   semver_valid (example_runtime (requiring (Some ''2.0.0'') (example_config scenario_manifest)))
     ''2.0.0'' \<and>
   semver_lt (example_runtime (requiring (Some ''2.0.0'') (example_config scenario_manifest)))
     (rushVersion (example_runtime (requiring (Some ''2.0.0'') (example_config scenario_manifest))))
     ''2.0.0'' \<and>
   loadFromConfigFile (example_runtime (requiring (Some ''2.0.0'') (example_config scenario_manifest)))
     ''/repo/rush.json''
     = (Inl (RushVersionTooOld ''1.0.0'' ''2.0.0''), [Call_loadJsonFile ''/repo/rush.json''])"
proof -
  let ?cfg = "requiring (Some ''2.0.0'') (example_config scenario_manifest)"
  let ?rt = "example_runtime ?cfg"
  have h1: "loadJsonFile ?rt ''/repo/rush.json'' = Inr ?cfg" by (simp add: example_runtime_def)
  have h2: "rushMinimumVersion ?cfg = Some ''2.0.0''" by (simp add: requiring_def)
  have h3: "''2.0.0'' \<noteq> []" by simp
  have h4: "semver_valid ?rt ''2.0.0''" by (simp add: example_runtime_def)
  have h5: "semver_lt ?rt (rushVersion ?rt) ''2.0.0''" by (simp add: example_runtime_def)
  have v: "rushVersion ?rt = ''1.0.0''" by (simp add: example_runtime_def)
  from version_check_precedes_schema_validation [OF h1 h2 h3 h4 h5] h1 h4 h5
  show ?thesis unfolding v by blast
qed

text \<open>
  C10. In \<^verbatim>\<open>loadFromConfigFile\<close>, when the \<^verbatim>\<open>rushMinimumVersion\<close> of the loaded
  configuration is missing, empty or not a valid version, the version check raises
  nothing and loading goes on with the schema validation and the construction: the result
  is theirs, it is never the version error, and the validator is run as soon as the
  schema file loads.
\<close>

theorem malformed_minimum_version_skips_check:
  assumes "loadJsonFile rt filename = Inr rushConfigJson"
    and "rushMinimumVersion rushConfigJson = None \<or>
         (\<exists>v. rushMinimumVersion rushConfigJson = Some v \<and> (v = [] \<or> \<not> semver_valid rt v))"
  shows "check_rushMinimumVersion rt rushConfigJson = None \<and>
         loadFromConfigFile rt filename
           = (fst (validate_and_construct rt rushConfigJson filename),
              Call_loadJsonFile filename # snd (validate_and_construct rt rushConfigJson filename)) \<and>
         (\<forall>a b. fst (loadFromConfigFile rt filename) \<noteq> Inl (RushVersionTooOld a b)) \<and>
         (loadRushSchema rt = None \<longrightarrow> Call_validate \<in> set (snd (loadFromConfigFile rt filename)))"
proof -
  from assms(2) have c: "check_rushMinimumVersion rt rushConfigJson = None"
    by (auto simp: check_rushMinimumVersion_def)
  with assms(1) have l: "loadFromConfigFile rt filename
           = (fst (validate_and_construct rt rushConfigJson filename),
              Call_loadJsonFile filename # snd (validate_and_construct rt rushConfigJson filename))"
    by (simp add: loadFromConfigFile_def case_prod_beta)
  have "fst (loadFromConfigFile rt filename) \<noteq> Inl (RushVersionTooOld a b)" for a b
    using validate_and_construct_error [of rt rushConfigJson filename "RushVersionTooOld a b"]
    unfolding l by auto
  moreover have "Call_validate \<in> set (snd (loadFromConfigFile rt filename))"
    if "loadRushSchema rt = None"
    unfolding l using validate_and_construct_calls [OF that] by simp
  ultimately show ?thesis using c l by blast
qed

text \<open>The tool has version 1.0.0 and the configuration requires the malformed \<^verbatim>\<open>2.x\<close>.\<close>

theorem malformed_minimum_version_skips_check_witness:
  "loadJsonFile (example_runtime (requiring (Some ''2.x'') (example_config scenario_manifest)))
     ''/repo/rush.json'' = Inr (requiring (Some ''2.x'') (example_config scenario_manifest)) \<and>
   \<not> semver_valid (example_runtime (requiring (Some ''2.x'') (example_config scenario_manifest)))
       ''2.x'' \<and>
   check_rushMinimumVersion
     (example_runtime (requiring (Some ''2.x'') (example_config scenario_manifest)))
     (requiring (Some ''2.x'') (example_config scenario_manifest)) = None \<and>
   Call_validate \<in> set (snd (loadFromConfigFile
     (example_runtime (requiring (Some ''2.x'') (example_config scenario_manifest)))
     ''/repo/rush.json''))"
proof -
  let ?cfg = "requiring (Some ''2.x'') (example_config scenario_manifest)"
  let ?rt = "example_runtime ?cfg"
  have h1: "loadJsonFile ?rt ''/repo/rush.json'' = Inr ?cfg" by (simp add: example_runtime_def)
  have nv: "\<not> semver_valid ?rt ''2.x''" by (simp add: example_runtime_def)
  have m: "rushMinimumVersion ?cfg = Some ''2.x''" by (simp add: requiring_def)
  have h2: "rushMinimumVersion ?cfg = None \<or>
         (\<exists>v. rushMinimumVersion ?cfg = Some v \<and> (v = [] \<or> \<not> semver_valid ?rt v))"
    using m nv by blast
  have s: "loadRushSchema ?rt = None" by (simp add: example_runtime_def)
  from malformed_minimum_version_skips_check [OF h1 h2] s h1 nv show ?thesis by blast
qed

end
